theory Spec2Isabelle
  imports Main "HOL-Library.AList"
begin

section \<open>Components and their hooks (Component.hpp, SampleComponents.hpp)\<close>

text \<open>
  The classes of the repository that derive from \<open>ComponentBase\<close>. A
  \<open>std::shared_ptr<ComponentBase>\<close> is modelled by \<open>component option\<close>: \<open>None\<close> is the
  null pointer, \<open>Some (Component a T)\<close> points to the object at address \<open>a\<close> whose
  dynamic type is \<open>T\<close> (the dynamic type of an object never changes). A
  \<open>std::weak_ptr\<close> returned by a lookup is modelled the same way, \<open>None\<close> being the
  empty reference.
\<close>

type_synonym addr = nat

datatype comp_class =
  ComponentBase | TransformComponent | RendererComponent | PlayerInputSimulatorComponent

datatype component = Component (address: addr) (dynamic_type: comp_class)

text \<open>\<open>std::is_base_of<Base, Derived>\<close> on these classes (reflexive on class types).\<close>

fun is_base_of :: "comp_class \<Rightarrow> comp_class \<Rightarrow> bool" where
  "is_base_of ComponentBase derived = True"
| "is_base_of base derived = (base = derived)"

text \<open>\<open>std::dynamic_pointer_cast<CompType>\<close> of a non-null pointer.\<close>

definition dynamic_pointer_cast :: "comp_class \<Rightarrow> component \<Rightarrow> component option" where
  "dynamic_pointer_cast CompType p =
     (if is_base_of CompType (dynamic_type p) then Some p else None)"

text \<open>
  The five virtual hooks of \<open>ComponentBase\<close>. Their bodies in \<open>ComponentBase\<close> are
  empty, and the model takes these bodies: a hook call changes nothing of the
  \<open>GameObject\<close> or of the \<open>ObjectManager\<close>. Every dispatch is recorded as an event,
  in the order in which the calls are made. (An override may call the public members
  of its owner, as \<open>PlayerInputSimulatorComponent::OnUpdate\<close> calls \<open>SetActive\<close>;
  in the model such a call is one of the caller's sequence.)
\<close>

datatype hook = OnStart | OnPreUpdate | OnUpdate | OnPostUpdate | OnRelease

type_synonym event = "hook \<times> component"

section \<open>GameObject (Component.hpp)\<close>

text \<open>
  \<open>m_umNameToComp\<close> is a \<open>std::unordered_map<std::string, std::shared_ptr<ComponentBase>>\<close>;
  it is modelled by an association list with \<open>map_of\<close> for \<open>find\<close>, \<open>AList.update\<close>
  for \<open>operator[]\<close> followed by assignment and \<open>AList.delete\<close> for \<open>erase\<close>. The
  range-for loops visit the entries in the order of the list (the order of an
  \<open>unordered_map\<close> is unspecified).
\<close>

record GameObject =
  m_isCalledUpdate :: bool
  m_isActive :: bool
  m_name :: string
  m_umNameToComp :: "(string \<times> component option) list"

text \<open>The members' initialisers: the object \<open>std::make_shared<GameObject>()\<close> builds.\<close>

definition new_GameObject :: GameObject where
  "new_GameObject =
     \<lparr>m_isCalledUpdate = False, m_isActive = False, m_name = [], m_umNameToComp = []\<rparr>"

text \<open>The non-null components of a map, in iteration order.\<close>

definition attached :: "(string \<times> component option) list \<Rightarrow> component list" where
  "attached comps = List.map_filter snd comps"

text \<open>
  \<open>for (auto& pair : m_umNameToComp) if (pair.second) pair.second->hook();\<close>
\<close>

definition dispatch :: "hook \<Rightarrow> (string \<times> component option) list \<Rightarrow> event list" where
  "dispatch h comps = map (Pair h) (attached comps)"

text \<open>
  Every member function that changes the object returns the object after the call
  together with the hooks it dispatched, in order. A \<open>std::string_view\<close> parameter of
  \<open>GameObject\<close> is converted by \<open>std::string(a_name)\<close>, which copies the content of
  the view; the model is given that content. The first \<open>AddComponent\<close> takes a
  non-null pointer (the source dereferences it without a check). Both \<open>AddComponent\<close>s
  also store a weak reference to \<open>this\<close> in the component (\<open>SetOwner\<close>); that field is
  read by \<open>GetOwner\<close> only, which no member function of \<open>GameObject\<close> or
  \<open>ObjectManager\<close> calls, and it is left out of the state.
\<close>

definition AddComponent :: "component \<Rightarrow> string \<Rightarrow> GameObject \<Rightarrow> GameObject \<times> event list" where
  "AddComponent a_spComponent a_name this =
     (this\<lparr>m_umNameToComp := AList.update a_name (Some a_spComponent) (m_umNameToComp this)\<rparr>, [])"

definition RemoveComponent :: "string \<Rightarrow> GameObject \<Rightarrow> GameObject \<times> event list" where
  "RemoveComponent a_compName this =
     (case map_of (m_umNameToComp this) a_compName of
        None \<Rightarrow> (this, [])
      | Some None \<Rightarrow> (this, [])
      | Some (Some c) \<Rightarrow>
          (this\<lparr>m_umNameToComp := AList.delete a_compName (m_umNameToComp this)\<rparr>,
           [(OnRelease, c)]))"

definition GetComponent :: "string \<Rightarrow> GameObject \<Rightarrow> component option" where
  "GetComponent a_name this =
     (case map_of (m_umNameToComp this) a_name of
        None \<Rightarrow> None
      | Some p \<Rightarrow> p)"

text \<open>
  The template members. \<open>typeid(CompType).name()\<close> is implementation-defined; it is
  the parameter \<open>tn\<close>. \<open>AddComponentT\<close> is given the address \<open>a\<close> at which
  \<open>std::make_shared<CompType>\<close> builds the new component; it returns the pointer to
  it as well.
\<close>

definition AddComponentT ::
  "(comp_class \<Rightarrow> string) \<Rightarrow> comp_class \<Rightarrow> addr \<Rightarrow> GameObject \<Rightarrow>
     component \<times> GameObject \<times> event list" where
  "AddComponentT tn CompType a this =
     (let spNewComp = Component a CompType
      in (spNewComp,
          this\<lparr>m_umNameToComp := AList.update (tn CompType) (Some spNewComp) (m_umNameToComp this)\<rparr>,
          []))"

definition RemoveComponentT ::
  "(comp_class \<Rightarrow> string) \<Rightarrow> comp_class \<Rightarrow> GameObject \<Rightarrow> GameObject \<times> event list" where
  "RemoveComponentT tn CompType this =
     (let compName = tn CompType
      in case map_of (m_umNameToComp this) compName of
           None \<Rightarrow> (this, [])
         | Some None \<Rightarrow> (this, [])
         | Some (Some c) \<Rightarrow>
             (this\<lparr>m_umNameToComp := AList.delete compName (m_umNameToComp this)\<rparr>,
              [(OnRelease, c)]))"

definition GetComponentT ::
  "(comp_class \<Rightarrow> string) \<Rightarrow> comp_class \<Rightarrow> GameObject \<Rightarrow> component option" where
  "GetComponentT tn CompType this =
     (case map_of (m_umNameToComp this) (tn CompType) of
        None \<Rightarrow> None
      | Some None \<Rightarrow> None
      | Some (Some c) \<Rightarrow> dynamic_pointer_cast CompType c)"

definition SetActive :: "bool \<Rightarrow> GameObject \<Rightarrow> GameObject \<times> event list" where
  "SetActive a_isActive this = (this\<lparr>m_isActive := a_isActive\<rparr>, [])"

definition IsActive :: "GameObject \<Rightarrow> bool" where
  "IsActive this = m_isActive this"

definition GetName :: "GameObject \<Rightarrow> string" where
  "GetName this = m_name this"

definition SetName :: "string \<Rightarrow> GameObject \<Rightarrow> GameObject \<times> event list" where
  "SetName a_name this = (this\<lparr>m_name := a_name\<rparr>, [])"

definition PreUpdate :: "GameObject \<Rightarrow> GameObject \<times> event list" where
  "PreUpdate this =
     (if \<not> m_isActive this then (this, [])
      else
        let (this1, started) =
              (if \<not> m_isCalledUpdate this
               then (this\<lparr>m_isCalledUpdate := True\<rparr>, dispatch OnStart (m_umNameToComp this))
               else (this, []))
        in (this1, started @ dispatch OnPreUpdate (m_umNameToComp this1)))"

definition Update :: "GameObject \<Rightarrow> GameObject \<times> event list" where
  "Update this =
     (if \<not> m_isActive this then (this, [])
      else (this, dispatch OnUpdate (m_umNameToComp this)))"

definition PostUpdate :: "GameObject \<Rightarrow> GameObject \<times> event list" where
  "PostUpdate this =
     (if \<not> m_isActive this then (this, [])
      else (this, dispatch OnPostUpdate (m_umNameToComp this)))"

text \<open>\<open>~GameObject()\<close>: \<open>OnRelease\<close> on every non-null component, then \<open>clear()\<close>.\<close>

definition destructor :: "GameObject \<Rightarrow> GameObject \<times> event list" where
  "destructor this =
     (this\<lparr>m_umNameToComp := []\<rparr>, dispatch OnRelease (m_umNameToComp this))"

text \<open>
  A caller's sequence of calls on one object, and the hooks the sequence dispatches.
\<close>

datatype call =
    Call_AddComponent component string
  | Call_AddComponentT comp_class addr
  | Call_RemoveComponent string
  | Call_RemoveComponentT comp_class
  | Call_SetActive bool
  | Call_PreUpdate
  | Call_Update
  | Call_PostUpdate

fun perform :: "(comp_class \<Rightarrow> string) \<Rightarrow> call \<Rightarrow> GameObject \<Rightarrow> GameObject \<times> event list" where
  "perform tn (Call_AddComponent c k) this = AddComponent c k this"
| "perform tn (Call_AddComponentT T a) this = snd (AddComponentT tn T a this)"
| "perform tn (Call_RemoveComponent k) this = RemoveComponent k this"
| "perform tn (Call_RemoveComponentT T) this = RemoveComponentT tn T this"
| "perform tn (Call_SetActive b) this = SetActive b this"
| "perform tn Call_PreUpdate this = PreUpdate this"
| "perform tn Call_Update this = Update this"
| "perform tn Call_PostUpdate this = PostUpdate this"

fun run :: "(comp_class \<Rightarrow> string) \<Rightarrow> call list \<Rightarrow> GameObject \<Rightarrow> GameObject \<times> event list" where
  "run tn [] this = (this, [])"
| "run tn (c # cs) this =
     (let (this1, es1) = perform tn c this;
          (this2, es2) = run tn cs this1
      in (this2, es1 @ es2))"

definition is_phase :: "call \<Rightarrow> bool" where
  "is_phase c = (c = Call_PreUpdate \<or> c = Call_Update \<or> c = Call_PostUpdate)"

text \<open>No \<open>OnStart\<close> among the hooks dispatched.\<close>

definition no_OnStart :: "event list \<Rightarrow> bool" where
  "no_OnStart es = (filter (\<lambda>ev. fst ev = OnStart) es = [])"

text \<open>Nothing but \<open>OnRelease\<close> among the hooks dispatched.\<close>

definition only_OnRelease :: "event list \<Rightarrow> bool" where
  "only_OnRelease es = (filter (\<lambda>ev. fst ev \<noteq> OnRelease) es = [])"



text \<open>The entries of a component map under a key, and under the other keys.\<close>

definition entries_at :: "string \<Rightarrow> (string \<times> component option) list \<Rightarrow> (string \<times> component option) list" where
  "entries_at k comps = filter (\<lambda>entry. fst entry = k) comps"

definition entries_off :: "string \<Rightarrow> (string \<times> component option) list \<Rightarrow> (string \<times> component option) list" where
  "entries_off k comps = filter (\<lambda>entry. fst entry \<noteq> k) comps"

text \<open>
  One possible \<open>typeid(CompType).name()\<close>, the one of the Microsoft compiler; it is
  used for the concrete runs only.
\<close>

definition typeid_name_msvc :: "comp_class \<Rightarrow> string" where
  "typeid_name_msvc T =
     (case T of
        ComponentBase \<Rightarrow> ''class ComponentBase''
      | TransformComponent \<Rightarrow> ''class TransformComponent''
      | RendererComponent \<Rightarrow> ''class RendererComponent''
      | PlayerInputSimulatorComponent \<Rightarrow> ''class PlayerInputSimulatorComponent'')"

text \<open>
  Two objects for the concrete runs, each with a \<open>TransformComponent\<close> attached by type
  and a \<open>RendererComponent\<close> attached by name: \<open>idle_object\<close> has never been activated,
  \<open>stopped_object\<close> has been activated, taken through \<open>PreUpdate\<close> and deactivated.
\<close>

definition idle_object :: GameObject where
  "idle_object =
     fst (run typeid_name_msvc
       [Call_AddComponentT TransformComponent 0,
        Call_AddComponent (Component 1 RendererComponent) ''body''] new_GameObject)"

definition stopped_object :: GameObject where
  "stopped_object =
     fst (run typeid_name_msvc
       [Call_SetActive True, Call_PreUpdate, Call_SetActive False] idle_object)"

section \<open>ObjectManager (ObjectManager.hpp)\<close>

text \<open>
  The members of \<open>ObjectManager\<close> take their names as \<open>std::string_view\<close> and use them
  through \<open>data()\<close> only: \<open>find(a_name.data())\<close> and \<open>a_baseName.data() + ...\<close> build a
  \<open>std::string\<close> from a \<open>const char*\<close>, that is, from the characters at \<open>data()\<close> up to
  the first NUL, whatever the length of the view. A view is modelled by the characters
  in memory from \<open>data()\<close> to the end of the array it points into (\<open>None\<close> for a null
  pointer) and by its length. Building a string from a null pointer, or from an array
  with no NUL in it, is an error of the program (an exception or undefined
  behaviour); it is a value of \<open>error\<close> in the model.
\<close>

definition NUL :: char where
  "NUL = CHR 0x00"

record string_view =
  sv_memory :: "string option"
  sv_size :: nat

datatype error = Null_pointer | Read_past_end

text \<open>\<open>std::string(v.data())\<close>: the C string at \<open>data()\<close>.\<close>

definition c_str_at :: "string_view \<Rightarrow> error + string" where
  "c_str_at v =
     (case sv_memory v of
        None \<Rightarrow> Inl Null_pointer
      | Some m \<Rightarrow>
          if NUL \<in> set m then Inr (takeWhile (\<lambda>c. c \<noteq> NUL) m) else Inl Read_past_end)"

text \<open>\<open>std::string(v)\<close>: the content of the view.\<close>

definition sv_content :: "string_view \<Rightarrow> string" where
  "sv_content v = (case sv_memory v of None \<Rightarrow> [] | Some m \<Rightarrow> take (sv_size v) m)"

text \<open>
  The view of a \<open>std::string\<close> \<open>s\<close> (and of a string literal with no NUL inside): all
  of \<open>s\<close>, with the terminating NUL behind it. \<open>c_str s\<close> is the C string at
  \<open>s.data()\<close>.
\<close>

definition view_of :: "string \<Rightarrow> string_view" where
  "view_of s = \<lparr>sv_memory = Some (s @ [NUL]), sv_size = length s\<rparr>"

definition c_str :: "string \<Rightarrow> string" where
  "c_str s = takeWhile (\<lambda>c. c \<noteq> NUL) s"

text \<open>
  \<open>std::to_string\<close> of a \<open>size_t\<close>: the decimal digits. The counter of
  \<open>CreateObjName\<close> is a natural number: a \<open>size_t\<close> would wrap only after the map
  held a name for every value of the counter.
\<close>

definition digit_char :: "nat \<Rightarrow> char" where
  "digit_char d = ''0123456789'' ! d"

fun to_string :: "nat \<Rightarrow> string" where
  "to_string n =
     (if n < 10 then [digit_char n]
      else to_string (n div 10) @ [digit_char (n mod 10)])"

declare to_string.simps [simp del]

lemma digit_char_inj:
  assumes "a < 10" "b < 10" "digit_char a = digit_char b"
  shows "a = b"
proof -
  have "distinct ''0123456789''" and "length ''0123456789'' = 10"
    by simp_all
  with assms show ?thesis
    unfolding digit_char_def by (metis nth_eq_iff_index_eq)
qed

lemma to_string_nonempty: "to_string n \<noteq> []"
  by (subst to_string.simps) simp

lemma to_string_small: "n < 10 \<Longrightarrow> to_string n = [digit_char n]"
  by (subst to_string.simps) simp

lemma to_string_large:
  "\<not> n < 10 \<Longrightarrow> to_string n = to_string (n div 10) @ [digit_char (n mod 10)]"
  by (subst to_string.simps) simp

lemma to_string_inj: "to_string a = to_string b \<Longrightarrow> a = b"
proof (induction a arbitrary: b rule: to_string.induct)
  case (1 n)
  show ?case
  proof (cases "n < 10")
    case small: True
    show ?thesis
    proof (cases "b < 10")
      case True
      with small "1.prems" have "digit_char n = digit_char b"
        by (simp add: to_string_small)
      with small True show ?thesis by (rule digit_char_inj)
    next
      case False
      with small "1.prems" have "to_string (b div 10) = []"
        by (simp add: to_string_small to_string_large)
      then show ?thesis by (simp add: to_string_nonempty)
    qed
  next
    case large: False
    show ?thesis
    proof (cases "b < 10")
      case True
      with large "1.prems" have "to_string (n div 10) = []"
        by (simp add: to_string_small to_string_large)
      then show ?thesis by (simp add: to_string_nonempty)
    next
      case False
      with large "1.prems" have q: "to_string (n div 10) = to_string (b div 10)"
        and r: "digit_char (n mod 10) = digit_char (b mod 10)"
        by (simp_all add: to_string_large)
      from "1.IH" [OF large q] have "n div 10 = b div 10" .
      moreover have "n mod 10 = b mod 10"
        by (rule digit_char_inj [OF _ _ r]) simp_all
      ultimately show ?thesis by (metis div_mult_mod_eq)
    qed
  qed
qed

lemma filter_shrinks:
  assumes "x \<in> set xs" "Q x" "\<not> P x" "\<And>y. P y \<Longrightarrow> Q y"
  shows "length (filter P xs) < length (filter Q xs)"
proof -
  have "filter P xs = filter P (filter Q xs)"
    using assms(4) by (auto simp: filter_filter intro: filter_cong)
  moreover have "length (filter P (filter Q xs)) < length (filter Q xs)"
    by (rule length_filter_less [of x]) (use assms in auto)
  ultimately show ?thesis by simp
qed

text \<open>
  \<open>m_umNameToObjPtr\<close> maps a name to an iterator of \<open>m_lObjects\<close>. Every node of the
  list is made by one \<open>emplace_back\<close> of a pointer that \<open>make_shared\<close> has just
  returned, so a node and the iterator to it are identified with the address of the
  object the node holds. The loop of \<open>CreateObjName\<close>: \<open>i\<close>, \<open>isFirstName\<close> and
  \<open>resultName\<close> are its variables.
\<close>

function CreateObjName_loop ::
  "(string \<times> addr) list \<Rightarrow> string \<Rightarrow> nat \<Rightarrow> bool \<Rightarrow> string \<Rightarrow> string" where
  "CreateObjName_loop m a_baseName i isFirstName resultName =
     (if isFirstName then resultName
      else let resultName' = a_baseName @ to_string i
           in CreateObjName_loop m a_baseName (i + 1)
                (if map_of m resultName' = None then True else isFirstName) resultName')"
  by pat_completeness auto

termination
proof (relation "measure (\<lambda>(m, b, i, f, r).
    if f then 0 else Suc (length (filter (\<lambda>k. \<exists>j\<ge>i. k = b @ to_string j) (map fst m))))")
  show "wf (measure (\<lambda>(m, b, i, f, r).
    if f then 0 else Suc (length (filter (\<lambda>k. \<exists>j\<ge>i. k = b @ to_string j) (map fst m)))))"
    by simp
next
  fix m :: "(string \<times> addr) list" and a_baseName i isFirstName and resultName x :: string
  assume f: "\<not> isFirstName" and x: "x = a_baseName @ to_string i"
  show "((m, a_baseName, i + 1, if map_of m x = None then True else isFirstName, x),
         (m, a_baseName, i, isFirstName, resultName)) \<in> measure (\<lambda>(m, b, i, f, r).
    if f then 0 else Suc (length (filter (\<lambda>k. \<exists>j\<ge>i. k = b @ to_string j) (map fst m))))"
  proof (cases "map_of m x = None")
    case True
    with f show ?thesis by simp
  next
    case False
    then have mem: "x \<in> set (map fst m)"
      by (metis map_of_eq_None_iff set_map)
    have "length (filter (\<lambda>k. \<exists>j\<ge>i + 1. k = a_baseName @ to_string j) (map fst m))
        < length (filter (\<lambda>k. \<exists>j\<ge>i. k = a_baseName @ to_string j) (map fst m))"
    proof (rule filter_shrinks [OF mem])
      show "\<exists>j\<ge>i. x = a_baseName @ to_string j"
        using x by auto
      show "\<not> (\<exists>j\<ge>i + 1. x = a_baseName @ to_string j)"
        using x by (auto dest: to_string_inj)
      show "\<And>y. \<exists>j\<ge>i + 1. y = a_baseName @ to_string j \<Longrightarrow> \<exists>j\<ge>i. y = a_baseName @ to_string j"
        by (metis add_leD1)
    qed
    with f False show ?thesis by simp
  qed
qed

declare CreateObjName_loop.simps [simp del]

text \<open>
  \<open>CreateObjName\<close> reads its argument through \<open>data()\<close> in its first statement; the loop
  is run with the C string found there.
\<close>

definition CreateObjName :: "(string \<times> addr) list \<Rightarrow> string_view \<Rightarrow> error + string" where
  "CreateObjName m a_baseName =
     (case c_str_at a_baseName of
        Inl e \<Rightarrow> Inl e
      | Inr base \<Rightarrow>
          Inr (CreateObjName_loop m base 1 (if map_of m base = None then True else False) []))"

text \<open>
  The state the manager works on. \<open>heap\<close> holds the live \<open>GameObject\<close>s by address (a
  \<open>make_shared\<close> takes the address \<open>next_addr\<close>). The owners of an object are the
  \<open>shared_ptr\<close>s in \<open>m_lObjects\<close> and those the callers hold (\<open>GenerateObject\<close> returns
  one); \<open>held w a\<close> counts the latter. \<open>trace\<close> is the sequence of hooks dispatched so
  far. A pointer of the list is never null; the source's branch for a null pointer is
  taken by the model for an address with no object in the heap.
\<close>

record world =
  heap :: "addr \<rightharpoonup> GameObject"
  held :: "addr \<Rightarrow> nat"
  next_addr :: addr
  m_umNameToObjPtr :: "(string \<times> addr) list"
  m_lObjects :: "addr list"
  trace :: "event list"

definition new_world :: world where
  "new_world =
     \<lparr>heap = Map.empty, held = (\<lambda>a. 0), next_addr = 0,
      m_umNameToObjPtr = [], m_lObjects = [], trace = []\<rparr>"

text \<open>
  A caller's call of a member function on the object at address \<open>a\<close>, through a
  pointer it holds or through a temporary one (\<open>GetObject(name).lock()\<close>, or
  \<open>GetOwner().lock()\<close> in a hook) that is gone when the call has returned.
\<close>

definition on_object :: "addr \<Rightarrow> (GameObject \<Rightarrow> GameObject \<times> event list) \<Rightarrow> world \<Rightarrow> world" where
  "on_object a f w =
     (case heap w a of
        None \<Rightarrow> w
      | Some obj \<Rightarrow>
          (let (obj', es) = f obj
           in w\<lparr>heap := (heap w)(a \<mapsto> obj'), trace := trace w @ es\<rparr>))"

text \<open>
  The end of a \<open>shared_ptr\<close>'s life: when it was the last owner of the object at \<open>a\<close>,
  the destructor of the object runs and the object is gone.
\<close>

definition use_count :: "world \<Rightarrow> addr \<Rightarrow> nat" where
  "use_count w a = count_list (m_lObjects w) a + held w a"

definition released :: "addr \<Rightarrow> world \<Rightarrow> world" where
  "released a w =
     (case heap w a of
        None \<Rightarrow> w
      | Some obj \<Rightarrow>
          if use_count w a = 0
          then w\<lparr>heap := (heap w)(a := None), trace := trace w @ snd (destructor obj)\<rparr>
          else w)"

text \<open>
  A caller gives up one of the \<open>shared_ptr\<close>s it holds (a caller that holds none has
  nothing to give up).
\<close>

definition drop_handle :: "addr \<Rightarrow> world \<Rightarrow> world" where
  "drop_handle a w =
     (if held w a = 0 then w
      else released a (w\<lparr>held := (held w)(a := held w a - 1)\<rparr>))"

text \<open>
  \<open>GenerateObject\<close> fails where \<open>CreateObjName\<close> fails. \<open>SetName(objName)\<close> is given the
  view of the whole \<open>std::string\<close>, and \<open>m_name = a_name\<close> copies its content.
\<close>

definition GenerateObject :: "string_view \<Rightarrow> world \<Rightarrow> error + addr \<times> world" where
  "GenerateObject a_name w =
     (let spNewObject = next_addr w
      in case CreateObjName (m_umNameToObjPtr w) a_name of
           Inl e \<Rightarrow> Inl e
         | Inr objName \<Rightarrow>
             (let obj = fst (SetActive True (fst (SetName objName new_GameObject)))
              in Inr (spNewObject,
                   w\<lparr>heap := (heap w)(spNewObject \<mapsto> obj),
                     held := (held w)(spNewObject := 1),
                     next_addr := Suc (next_addr w),
                     m_lObjects := m_lObjects w @ [spNewObject],
                     m_umNameToObjPtr := AList.update objName spNewObject (m_umNameToObjPtr w)\<rparr>)))"

definition GetObject :: "string_view \<Rightarrow> world \<Rightarrow> error + addr option" where
  "GetObject a_name w =
     (case c_str_at a_name of
        Inl e \<Rightarrow> Inl e
      | Inr key \<Rightarrow>
          Inr (case map_of (m_umNameToObjPtr w) key of
                 None \<Rightarrow> None
               | Some itr \<Rightarrow> (if heap w itr = None then None else Some itr)))"

text \<open>
  The loop of \<open>RemoveUnActuveObjects\<close>: \<open>front\<close> are the nodes in front of \<open>itr\<close>, the
  second list the nodes from \<open>itr\<close> on. \<open>m_lObjects.erase(itr)\<close> ends the life of the
  node's pointer. The key erased from the index is \<open>GetName().data()\<close>, the name as a C
  string.
\<close>

fun RemoveUnActuveObjects_loop :: "addr list \<Rightarrow> addr list \<Rightarrow> world \<Rightarrow> world" where
  "RemoveUnActuveObjects_loop front [] w = w"
| "RemoveUnActuveObjects_loop front (p # rest) w =
     (case heap w p of
        None \<Rightarrow>
          RemoveUnActuveObjects_loop front rest (released p (w\<lparr>m_lObjects := front @ rest\<rparr>))
      | Some obj \<Rightarrow>
          if \<not> IsActive obj
          then RemoveUnActuveObjects_loop front rest
                 (released p
                    (w\<lparr>m_umNameToObjPtr := AList.delete (c_str (GetName obj)) (m_umNameToObjPtr w),
                       m_lObjects := front @ rest\<rparr>))
          else RemoveUnActuveObjects_loop (front @ [p]) rest w)"

definition RemoveUnActuveObjects :: "world \<Rightarrow> world" where
  "RemoveUnActuveObjects w = RemoveUnActuveObjects_loop [] (m_lObjects w) w"

definition ObjectManager_Update :: "world \<Rightarrow> world" where
  "ObjectManager_Update w = RemoveUnActuveObjects w"

text \<open>
  \<open>ReleaseAllObjects\<close>: the first loop only prints; \<open>m_lObjects.clear()\<close> ends the life
  of every pointer of the list, front to back; then the map is cleared.
\<close>

fun clear_objects :: "addr list \<Rightarrow> world \<Rightarrow> world" where
  "clear_objects [] w = w"
| "clear_objects (p # rest) w = clear_objects rest (released p (w\<lparr>m_lObjects := rest\<rparr>))"

definition ReleaseAllObjects :: "world \<Rightarrow> world" where
  "ReleaseAllObjects w = (clear_objects (m_lObjects w) w)\<lparr>m_umNameToObjPtr := []\<rparr>"

text \<open>The names of the objects of the collection, in order.\<close>

definition object_names :: "world \<Rightarrow> string list" where
  "object_names w = List.map_filter (\<lambda>a. map_option GetName (heap w a)) (m_lObjects w)"

text \<open>
  \<open>active_at w a\<close>: the pointer \<open>a\<close> of the collection is non-null and its object is
  active, the condition under which \<open>RemoveUnActuveObjects\<close> keeps a node.
\<close>

definition active_at :: "world \<Rightarrow> addr \<Rightarrow> bool" where
  "active_at w a = (case heap w a of None \<Rightarrow> False | Some obj \<Rightarrow> IsActive obj)"

text \<open>
  The hooks that removing the node of \<open>a\<close> dispatches: those of the destructor, when
  the object is inactive and no caller holds a pointer to it.
\<close>

definition release_events :: "world \<Rightarrow> addr \<Rightarrow> event list" where
  "release_events w a =
     (case heap w a of
        None \<Rightarrow> []
      | Some obj \<Rightarrow>
          if \<not> IsActive obj \<and> held w a = 0 then dispatch OnRelease (m_umNameToComp obj) else [])"

text \<open>\<open>obj->SetActive(false); manager.Update();\<close>\<close>

definition deactivate_and_update :: "addr \<Rightarrow> world \<Rightarrow> world" where
  "deactivate_and_update e w = ObjectManager_Update (on_object e (SetActive False) w)"

text \<open>
  The relation between the index and the collection: every entry of the index points
  into the collection, every object of the collection is the one the index holds
  under its name, and no name occurs twice in the index.
\<close>

definition indexed_under_its_name :: "world \<Rightarrow> addr \<Rightarrow> bool" where
  "indexed_under_its_name w a =
     (case heap w a of
        None \<Rightarrow> False
      | Some obj \<Rightarrow> map_of (m_umNameToObjPtr w) (GetName obj) = Some a)"

definition index_bijection :: "world \<Rightarrow> bool" where
  "index_bijection w =
     (list_all (\<lambda>entry. snd entry \<in> set (m_lObjects w)) (m_umNameToObjPtr w)
      \<and> list_all (indexed_under_its_name w) (m_lObjects w)
      \<and> distinct (map fst (m_umNameToObjPtr w)))"

text \<open>
  What a caller can do with a manager, and a sequence of such calls; it fails where a
  call fails. The caller keeps the pointer \<open>GenerateObject\<close> returns until it gives it up.
\<close>

datatype manager_call =
    Call_GenerateObject string_view
  | Call_ManagerUpdate
  | Call_ReleaseAllObjects
  | Call_on addr call
  | Call_drop addr

fun perform_manager :: "(comp_class \<Rightarrow> string) \<Rightarrow> manager_call \<Rightarrow> world \<Rightarrow> error + world" where
  "perform_manager tn (Call_GenerateObject v) w = map_sum id snd (GenerateObject v w)"
| "perform_manager tn Call_ManagerUpdate w = Inr (ObjectManager_Update w)"
| "perform_manager tn Call_ReleaseAllObjects w = Inr (ReleaseAllObjects w)"
| "perform_manager tn (Call_on a c) w = Inr (on_object a (perform tn c) w)"
| "perform_manager tn (Call_drop a) w = Inr (drop_handle a w)"

fun run_manager :: "(comp_class \<Rightarrow> string) \<Rightarrow> manager_call list \<Rightarrow> world \<Rightarrow> error + world" where
  "run_manager tn [] w = Inr w"
| "run_manager tn (c # cs) w =
     (case perform_manager tn c w of
        Inl e \<Rightarrow> Inl e
      | Inr w' \<Rightarrow> run_manager tn cs w')"

text \<open>
  The nodes of the collection hold distinct objects, at addresses that have been
  taken.
\<close>

definition collection_distinct :: "world \<Rightarrow> bool" where
  "collection_distinct w =
     (distinct (m_lObjects w) \<and> list_all (\<lambda>a. a < next_addr w) (m_lObjects w))"

text \<open>
  A caller's sequence of \<open>GenerateObject\<close> calls; it fails where a call fails.
\<close>

fun generate_all :: "string_view list \<Rightarrow> world \<Rightarrow> error + world" where
  "generate_all [] w = Inr w"
| "generate_all (n # ns) w =
     (case GenerateObject n w of
        Inl e \<Rightarrow> Inl e
      | Inr (a, w') \<Rightarrow> generate_all ns w')"

text \<open>
  Concrete runs, with string literals for names; each is the world a run ends in
  (the runs are shown not to fail where they are used). \<open>two_objects\<close> are the first two
  calls of \<open>main\<close> on the manager (windows.cpp). In \<open>enemy_scenario\<close> one object has a
  component attached by type and has been through \<open>PreUpdate\<close> and \<open>Update\<close>, its
  creator still holding the pointer \<open>GenerateObject\<close> returned; in \<open>released_scenario\<close>
  the creator has given that pointer up. In \<open>twice_attached\<close> one component is
  attached to an object under two keys, in \<open>shared_component\<close> to two objects; no
  caller holds a pointer to these objects.
\<close>

definition two_objects :: world where
  "two_objects = projr (generate_all [view_of ''Player'', view_of ''Enemy''] new_world)"

definition three_objects :: world where
  "three_objects = projr (generate_all [view_of ''X'', view_of ''X'', view_of ''X''] new_world)"

definition one_inactive :: world where
  "one_inactive = on_object 0 (SetActive False) two_objects"

definition enemy_scenario :: world where
  "enemy_scenario =
     on_object 0 Update
       (on_object 0 PreUpdate
          (on_object 0 (\<lambda>obj. snd (AddComponentT typeid_name_msvc TransformComponent 100 obj))
             (projr (generate_all [view_of ''Enemy''] new_world))))"

definition released_scenario :: world where
  "released_scenario = drop_handle 0 enemy_scenario"

definition twice_attached :: world where
  "twice_attached =
     drop_handle 0
       (on_object 0 (AddComponent (Component 100 RendererComponent) ''right'')
          (on_object 0 (AddComponent (Component 100 RendererComponent) ''left'')
             (projr (generate_all [view_of ''Enemy''] new_world))))"

definition shared_component :: world where
  "shared_component =
     on_object 1 (SetActive False)
       (drop_handle 1
          (drop_handle 0
             (on_object 1 (AddComponent (Component 100 RendererComponent) ''body'')
                (on_object 0 (AddComponent (Component 100 RendererComponent) ''body'')
                   two_objects))))"

section \<open>Properties of GameObject\<close>

lemma GetComponent_update:
  "GetComponent k (this\<lparr>m_umNameToComp := AList.update k' v (m_umNameToComp this)\<rparr>) =
     (if k = k' then v else GetComponent k this)"
  by (simp add: GetComponent_def update_conv')

lemma phase_inactive:
  "\<not> m_isActive this \<Longrightarrow> is_phase c \<Longrightarrow> perform tn c this = (this, [])"
  by (auto simp: is_phase_def PreUpdate_def Update_def PostUpdate_def)

lemma run_phases_inactive:
  "\<not> m_isActive this \<Longrightarrow> list_all is_phase cs \<Longrightarrow> run tn cs this = (this, [])"
  by (induction cs) (simp_all add: phase_inactive)

text \<open>
  Claim C7. On an object whose active flag is false, \<open>PreUpdate\<close>, \<open>Update\<close> and
  \<open>PostUpdate\<close> dispatch no hook and return the object as it was (components, active
  flag, started flag and name); so does every sequence of these calls, however long,
  in particular on an object that has been inactive since it was built.
\<close>

theorem inactive_phases_are_noops:
  assumes "\<not> m_isActive this"
  shows "PreUpdate this = (this, []) \<and> Update this = (this, []) \<and> PostUpdate this = (this, [])
       \<and> (\<forall>cs. list_all is_phase cs \<longrightarrow> run tn cs this = (this, []))"
  using assms
  by (simp add: PreUpdate_def Update_def PostUpdate_def run_phases_inactive)

text \<open>
  Two inactive objects with two components each, one never activated, one stopped
  after its start; the same phase calls on the stopped object once it is active again
  dispatch ten hooks.
\<close>

theorem inactive_phases_are_noops_witness:
  "\<not> m_isActive idle_object \<and> \<not> m_isActive stopped_object
   \<and> attached (m_umNameToComp idle_object)
        = [Component 0 TransformComponent, Component 1 RendererComponent]
   \<and> attached (m_umNameToComp stopped_object)
        = [Component 0 TransformComponent, Component 1 RendererComponent]
   \<and> PreUpdate idle_object = (idle_object, [])
   \<and> Update idle_object = (idle_object, [])
   \<and> PostUpdate idle_object = (idle_object, [])
   \<and> run typeid_name_msvc [Call_PreUpdate, Call_Update, Call_PostUpdate, Call_PreUpdate, Call_Update]
        idle_object = (idle_object, [])
   \<and> PreUpdate stopped_object = (stopped_object, [])
   \<and> Update stopped_object = (stopped_object, [])
   \<and> PostUpdate stopped_object = (stopped_object, [])
   \<and> run typeid_name_msvc [Call_PreUpdate, Call_Update, Call_PostUpdate, Call_PreUpdate, Call_Update]
        stopped_object = (stopped_object, [])
   \<and> length (snd (run typeid_name_msvc
        [Call_PreUpdate, Call_Update, Call_PostUpdate, Call_PreUpdate, Call_Update]
        (fst (SetActive True stopped_object)))) = 10"
proof -
  have h: "\<not> m_isActive idle_object" and k: "\<not> m_isActive stopped_object"
    by code_simp+
  have a: "attached (m_umNameToComp idle_object)
        = [Component 0 TransformComponent, Component 1 RendererComponent]"
    and b: "attached (m_umNameToComp stopped_object)
        = [Component 0 TransformComponent, Component 1 RendererComponent]"
    by code_simp+
  have p: "list_all is_phase [Call_PreUpdate, Call_Update, Call_PostUpdate, Call_PreUpdate, Call_Update]"
    by (simp add: is_phase_def)
  have n: "length (snd (run typeid_name_msvc
        [Call_PreUpdate, Call_Update, Call_PostUpdate, Call_PreUpdate, Call_Update]
        (fst (SetActive True stopped_object)))) = 10"
    by code_simp
  from inactive_phases_are_noops [OF h, of typeid_name_msvc]
       inactive_phases_are_noops [OF k, of typeid_name_msvc] h k a b p n
  show ?thesis by blast
qed

lemma no_OnStart_simps [simp]:
  "no_OnStart []"
  "no_OnStart (es @ fs) = (no_OnStart es \<and> no_OnStart fs)"
  "no_OnStart [(h, c)] = (h \<noteq> OnStart)"
  by (auto simp: no_OnStart_def)

lemma no_OnStart_dispatch [simp]:
  "no_OnStart (dispatch h comps) = (h \<noteq> OnStart \<or> attached comps = [])"
  by (auto simp: no_OnStart_def dispatch_def filter_empty_conv)

lemma perform_latched:
  assumes "m_isCalledUpdate this"
  shows "m_isCalledUpdate (fst (perform tn c this)) \<and> no_OnStart (snd (perform tn c this))"
  using assms
  by (cases c)
     (auto simp: AddComponent_def AddComponentT_def RemoveComponent_def RemoveComponentT_def
        SetActive_def PreUpdate_def Update_def PostUpdate_def Let_def
        split: option.splits)

lemma run_latched:
  "m_isCalledUpdate this \<Longrightarrow>
     m_isCalledUpdate (fst (run tn cs this)) \<and> no_OnStart (snd (run tn cs this))"
proof (induction cs arbitrary: this)
  case Nil
  then show ?case by simp
next
  case (Cons c cs)
  from perform_latched [OF Cons.prems, of tn c]
  have 1: "m_isCalledUpdate (fst (perform tn c this))" and 2: "no_OnStart (snd (perform tn c this))"
    by simp_all
  from Cons.IH [OF 1] 2 show ?case
    by (simp add: split_beta)
qed

lemma PreUpdate_sets_latch: "m_isActive this \<Longrightarrow> m_isCalledUpdate (fst (PreUpdate this))"
  by (simp add: PreUpdate_def split_beta)

text \<open>
  Claim C10. The started flag is never reset. A \<open>PreUpdate\<close> on an active object
  leaves the flag set; and from an object whose flag is set, no sequence of
  \<open>SetActive\<close>, \<open>AddComponent\<close>, \<open>RemoveComponent\<close> (by name or by type) and phase calls
  clears the flag or dispatches \<open>OnStart\<close> to any component: the flag of the object,
  not a state of the component, decides the dispatch.
\<close>

theorem started_latch_is_never_reset:
  "(m_isActive this \<longrightarrow> m_isCalledUpdate (fst (PreUpdate this)))
   \<and> (m_isCalledUpdate this \<longrightarrow>
        (\<forall>cs. m_isCalledUpdate (fst (run tn cs this)) \<and> no_OnStart (snd (run tn cs this))))"
  using run_latched PreUpdate_sets_latch by blast

text \<open>
  After the first \<open>PreUpdate\<close>: deactivate, attach a new component, activate, and run
  the three phases. The new component gets no \<open>OnStart\<close>.
\<close>

theorem started_latch_is_never_reset_witness:
  "m_isActive (fst (SetActive True new_GameObject))
   \<and> m_isCalledUpdate (fst (PreUpdate (fst (SetActive True new_GameObject))))
   \<and> m_isCalledUpdate (fst (run typeid_name_msvc
        [Call_SetActive False, Call_AddComponentT TransformComponent 0, Call_SetActive True,
         Call_PreUpdate, Call_Update, Call_PostUpdate]
        (fst (PreUpdate (fst (SetActive True new_GameObject))))))
   \<and> snd (run typeid_name_msvc
        [Call_SetActive False, Call_AddComponentT TransformComponent 0, Call_SetActive True,
         Call_PreUpdate, Call_Update, Call_PostUpdate]
        (fst (PreUpdate (fst (SetActive True new_GameObject)))))
       = [(OnPreUpdate, Component 0 TransformComponent),
          (OnUpdate, Component 0 TransformComponent),
          (OnPostUpdate, Component 0 TransformComponent)]"
proof -
  have a: "m_isActive (fst (SetActive True new_GameObject))"
    by (simp add: SetActive_def)
  from started_latch_is_never_reset [of "fst (SetActive True new_GameObject)" typeid_name_msvc] a
  have l: "m_isCalledUpdate (fst (PreUpdate (fst (SetActive True new_GameObject))))"
    by blast
  from started_latch_is_never_reset
         [of "fst (PreUpdate (fst (SetActive True new_GameObject)))" typeid_name_msvc] l
  have "m_isCalledUpdate (fst (run typeid_name_msvc
        [Call_SetActive False, Call_AddComponentT TransformComponent 0, Call_SetActive True,
         Call_PreUpdate, Call_Update, Call_PostUpdate]
        (fst (PreUpdate (fst (SetActive True new_GameObject))))))"
    by blast
  moreover have "snd (run typeid_name_msvc
        [Call_SetActive False, Call_AddComponentT TransformComponent 0, Call_SetActive True,
         Call_PreUpdate, Call_Update, Call_PostUpdate]
        (fst (PreUpdate (fst (SetActive True new_GameObject)))))
       = [(OnPreUpdate, Component 0 TransformComponent),
          (OnUpdate, Component 0 TransformComponent),
          (OnPostUpdate, Component 0 TransformComponent)]"
    by code_simp
  ultimately show ?thesis using a l by blast
qed

lemma count_list_Pair:
  "count_list (map (Pair h) xs) (h', c) = (if h = h' then count_list xs c else 0)"
  by (induction xs) auto

lemma count_dispatch:
  "count_list (dispatch h comps) (h', c) = (if h = h' then count_list (attached comps) c else 0)"
  by (simp add: dispatch_def count_list_Pair)

lemma only_OnRelease_simps [simp]:
  "only_OnRelease []"
  "only_OnRelease (es @ fs) = (only_OnRelease es \<and> only_OnRelease fs)"
  "only_OnRelease [(h, c)] = (h = OnRelease)"
  by (auto simp: only_OnRelease_def)












text \<open>
  Claim C2 on the code. A second component is attached under a key that is occupied,
  by name and by type. The second call dispatches no hook; the map then holds the
  second component alone, and the destructor of the object releases the second
  component alone: the first has left the object and \<open>OnRelease\<close> has never been
  invoked on it. When the first is removed by \<open>RemoveComponent\<close> before the second is
  attached, \<open>OnRelease\<close> is invoked on it.
\<close>

theorem AddComponent_overwrite_skips_OnRelease:
  "snd (run typeid_name_msvc
        [Call_AddComponent (Component 0 RendererComponent) ''body'',
         Call_AddComponent (Component 1 RendererComponent) ''body''] new_GameObject) = []
   \<and> m_umNameToComp (fst (run typeid_name_msvc
        [Call_AddComponent (Component 0 RendererComponent) ''body'',
         Call_AddComponent (Component 1 RendererComponent) ''body''] new_GameObject))
       = [(''body'', Some (Component 1 RendererComponent))]
   \<and> snd (destructor (fst (run typeid_name_msvc
        [Call_AddComponent (Component 0 RendererComponent) ''body'',
         Call_AddComponent (Component 1 RendererComponent) ''body''] new_GameObject)))
       = [(OnRelease, Component 1 RendererComponent)]
   \<and> snd (run typeid_name_msvc
        [Call_AddComponentT TransformComponent 0,
         Call_AddComponentT TransformComponent 1] new_GameObject) = []
   \<and> m_umNameToComp (fst (run typeid_name_msvc
        [Call_AddComponentT TransformComponent 0,
         Call_AddComponentT TransformComponent 1] new_GameObject))
       = [(typeid_name_msvc TransformComponent, Some (Component 1 TransformComponent))]
   \<and> snd (destructor (fst (run typeid_name_msvc
        [Call_AddComponentT TransformComponent 0,
         Call_AddComponentT TransformComponent 1] new_GameObject)))
       = [(OnRelease, Component 1 TransformComponent)]
   \<and> snd (run typeid_name_msvc
        [Call_AddComponent (Component 0 RendererComponent) ''body'',
         Call_RemoveComponent ''body'',
         Call_AddComponent (Component 1 RendererComponent) ''body''] new_GameObject)
       = [(OnRelease, Component 0 RendererComponent)]"
  by code_simp

lemma entries_at_update:
  "distinct (map fst al) \<Longrightarrow> entries_at k (AList.update k v al) = [(k, v)]"
proof (induction al)
  case Nil
  then show ?case by (simp add: entries_at_def)
next
  case (Cons p al)
  show ?case
  proof (cases "fst p = k")
    case True
    then have "k \<notin> fst ` set al" using Cons.prems by auto
    then have "filter (\<lambda>entry. fst entry = k) al = []"
      by (auto simp: filter_empty_conv)
    with True show ?thesis by (simp add: entries_at_def)
  next
    case False
    with Cons show ?thesis by (simp add: entries_at_def)
  qed
qed

lemma entries_off_update: "entries_off k (AList.update k v al) = entries_off k al"
  by (induction al) (simp_all add: entries_off_def)

lemma entries_at_delete: "entries_at k (AList.delete k al) = []"
  by (induction al) (simp_all add: entries_at_def)

lemma entries_off_delete: "entries_off k (AList.delete k al) = entries_off k al"
  by (induction al) (simp_all add: entries_off_def)

text \<open>The keys of the map stay distinct under every call.\<close>

lemma perform_keeps_keys_distinct:
  "distinct (map fst (m_umNameToComp this)) \<Longrightarrow>
     distinct (map fst (m_umNameToComp (fst (perform tn c this))))"
  by (cases c)
     (auto simp: AddComponent_def AddComponentT_def RemoveComponent_def RemoveComponentT_def
        SetActive_def PreUpdate_def Update_def PostUpdate_def Let_def distinct_update distinct_delete
        split: option.splits)

lemma run_keeps_keys_distinct:
  "distinct (map fst (m_umNameToComp this)) \<Longrightarrow>
     distinct (map fst (m_umNameToComp (fst (run tn cs this))))"
proof (induction cs arbitrary: this)
  case Nil
  then show ?case by simp
next
  case (Cons c cs)
  from Cons.IH [OF perform_keeps_keys_distinct [OF Cons.prems, of tn c]] show ?case
    by (simp add: split_beta)
qed

lemma is_base_of_refl: "is_base_of T T"
  by (cases T) simp_all

text \<open>
  Claim C6, as amended. The members by name and by type work on one map (of distinct
  keys, as an \<open>unordered_map\<close> has). After \<open>AddComponent(instance, key)\<close> with the key
  \<open>typeid(Type).name()\<close> the map holds the instance as its only entry for that key;
  \<open>GetComponent<Type>()\<close> returns it when its dynamic type is \<open>Type\<close> or derives from
  \<open>Type\<close>, and is empty otherwise; \<open>RemoveComponent<Type>()\<close> invokes \<open>OnRelease\<close> on it
  and leaves no entry for the key, whatever its type; \<open>AddComponent<Type>()\<close> puts
  the new component in its place, as it does for a component attached by type, the
  new component being the only entry for the key and the one \<open>GetComponent<Type>()\<close>
  returns. The entries of the other keys stay as they were throughout.
\<close>

theorem typed_and_named_share_one_map:
  assumes "distinct (map fst (m_umNameToComp this))"
  shows "entries_at (tn T) (m_umNameToComp (fst (AddComponent c (tn T) this))) = [(tn T, Some c)]
   \<and> GetComponentT tn T (fst (AddComponent c (tn T) this))
       = (if is_base_of T (dynamic_type c) then Some c else None)
   \<and> snd (RemoveComponentT tn T (fst (AddComponent c (tn T) this))) = [(OnRelease, c)]
   \<and> entries_at (tn T)
        (m_umNameToComp (fst (RemoveComponentT tn T (fst (AddComponent c (tn T) this))))) = []
   \<and> entries_off (tn T)
        (m_umNameToComp (fst (RemoveComponentT tn T (fst (AddComponent c (tn T) this)))))
       = entries_off (tn T) (m_umNameToComp this)
   \<and> entries_at (tn T)
        (m_umNameToComp (fst (snd (AddComponentT tn T a (fst (AddComponent c (tn T) this))))))
       = [(tn T, Some (Component a T))]
   \<and> entries_off (tn T)
        (m_umNameToComp (fst (snd (AddComponentT tn T a (fst (AddComponent c (tn T) this))))))
       = entries_off (tn T) (m_umNameToComp this)
   \<and> GetComponentT tn T (fst (snd (AddComponentT tn T a (fst (AddComponent c (tn T) this)))))
       = Some (Component a T)
   \<and> entries_at (tn T)
        (m_umNameToComp (fst (snd (AddComponentT tn T a (fst (snd (AddComponentT tn T b this)))))))
       = [(tn T, Some (Component a T))]
   \<and> entries_off (tn T)
        (m_umNameToComp (fst (snd (AddComponentT tn T a (fst (snd (AddComponentT tn T b this)))))))
       = entries_off (tn T) (m_umNameToComp this)
   \<and> GetComponentT tn T (fst (snd (AddComponentT tn T a (fst (snd (AddComponentT tn T b this))))))
       = Some (Component a T)"
proof -
  let ?k = "tn T"
  let ?al = "m_umNameToComp this"
  have named: "m_umNameToComp (fst (AddComponent c ?k this)) = AList.update ?k (Some c) ?al"
    by (simp add: AddComponent_def)
  have typed: "m_umNameToComp (fst (snd (AddComponentT tn T x obj)))
                 = AList.update ?k (Some (Component x T)) (m_umNameToComp obj)" for x obj
    by (simp add: AddComponentT_def Let_def)
  have removed: "map_of (m_umNameToComp obj) ?k = Some (Some c) \<Longrightarrow>
      RemoveComponentT tn T obj =
        (obj\<lparr>m_umNameToComp := AList.delete ?k (m_umNameToComp obj)\<rparr>, [(OnRelease, c)])" for obj
    by (simp add: RemoveComponentT_def Let_def)
  have look: "map_of (m_umNameToComp obj) ?k = Some (Some x) \<Longrightarrow>
      GetComponentT tn T obj = dynamic_pointer_cast T x" for obj x
    by (simp add: GetComponentT_def)
  have at: "map_of (m_umNameToComp (fst (AddComponent c ?k this))) ?k = Some (Some c)"
    by (simp add: named update_conv')
  have at_typed: "map_of (m_umNameToComp (fst (snd (AddComponentT tn T x obj)))) ?k
                    = Some (Some (Component x T))" for x obj
    by (simp add: typed update_conv')
  have 1: "entries_at ?k (m_umNameToComp (fst (AddComponent c ?k this))) = [(?k, Some c)]"
    using assms by (simp add: named entries_at_update)
  have 2: "GetComponentT tn T (fst (AddComponent c ?k this))
       = (if is_base_of T (dynamic_type c) then Some c else None)"
    by (simp add: look [OF at] dynamic_pointer_cast_def)
  have 3: "snd (RemoveComponentT tn T (fst (AddComponent c ?k this))) = [(OnRelease, c)]"
    by (simp add: removed [OF at])
  have 4: "entries_at ?k
        (m_umNameToComp (fst (RemoveComponentT tn T (fst (AddComponent c ?k this))))) = []"
    by (simp add: removed [OF at] entries_at_delete)
  have 5: "entries_off ?k
        (m_umNameToComp (fst (RemoveComponentT tn T (fst (AddComponent c ?k this)))))
       = entries_off ?k ?al"
    by (simp add: removed [OF at] entries_off_delete named entries_off_update)
  have 6: "entries_at ?k
        (m_umNameToComp (fst (snd (AddComponentT tn T a (fst (AddComponent c ?k this))))))
       = [(?k, Some (Component a T))]"
    using assms by (simp add: typed named entries_at_update)
  have 7: "entries_off ?k
        (m_umNameToComp (fst (snd (AddComponentT tn T a (fst (AddComponent c ?k this))))))
       = entries_off ?k ?al"
    by (simp add: typed named entries_off_update)
  have 8: "GetComponentT tn T (fst (snd (AddComponentT tn T a (fst (AddComponent c ?k this)))))
       = Some (Component a T)"
    by (simp add: look [OF at_typed] dynamic_pointer_cast_def is_base_of_refl)
  have 9: "entries_at ?k
        (m_umNameToComp (fst (snd (AddComponentT tn T a (fst (snd (AddComponentT tn T b this)))))))
       = [(?k, Some (Component a T))]"
    using assms by (simp add: typed entries_at_update)
  have 10: "entries_off ?k
        (m_umNameToComp (fst (snd (AddComponentT tn T a (fst (snd (AddComponentT tn T b this)))))))
       = entries_off ?k ?al"
    by (simp add: typed entries_off_update)
  have 11: "GetComponentT tn T (fst (snd (AddComponentT tn T a (fst (snd (AddComponentT tn T b this))))))
       = Some (Component a T)"
    by (simp add: look [OF at_typed] dynamic_pointer_cast_def is_base_of_refl)
  from 1 2 3 4 5 6 7 8 9 10 11 show ?thesis by blast
qed

text \<open>
  On \<open>idle_object\<close>, which holds a \<open>TransformComponent\<close> attached by type and a
  \<open>RendererComponent\<close> under \<open>body\<close>: a \<open>TransformComponent\<close> attached by name under the
  key of its type takes the place of the first and is found by type; a
  \<open>PlayerInputSimulatorComponent\<close> attached under the same key is not found by type;
  \<open>AddComponent<TransformComponent>()\<close> replaces it; \<open>body\<close> is untouched.
\<close>

theorem typed_and_named_share_one_map_witness:
  "distinct (map fst (m_umNameToComp idle_object))
   \<and> m_umNameToComp (fst (AddComponent (Component 5 TransformComponent)
         (typeid_name_msvc TransformComponent) idle_object))
       = [(typeid_name_msvc TransformComponent, Some (Component 5 TransformComponent)),
          (''body'', Some (Component 1 RendererComponent))]
   \<and> GetComponentT typeid_name_msvc TransformComponent
       (fst (AddComponent (Component 5 TransformComponent)
          (typeid_name_msvc TransformComponent) idle_object))
      = Some (Component 5 TransformComponent)
   \<and> GetComponentT typeid_name_msvc TransformComponent
       (fst (AddComponent (Component 6 PlayerInputSimulatorComponent)
          (typeid_name_msvc TransformComponent) idle_object))
      = None
   \<and> snd (RemoveComponentT typeid_name_msvc TransformComponent
       (fst (AddComponent (Component 6 PlayerInputSimulatorComponent)
          (typeid_name_msvc TransformComponent) idle_object)))
      = [(OnRelease, Component 6 PlayerInputSimulatorComponent)]
   \<and> m_umNameToComp (fst (snd (AddComponentT typeid_name_msvc TransformComponent 7
       (fst (AddComponent (Component 6 PlayerInputSimulatorComponent)
          (typeid_name_msvc TransformComponent) idle_object)))))
      = [(typeid_name_msvc TransformComponent, Some (Component 7 TransformComponent)),
         (''body'', Some (Component 1 RendererComponent))]"
proof -
  have d: "distinct (map fst (m_umNameToComp idle_object))"
    by code_simp
  have m5: "m_umNameToComp (fst (AddComponent (Component 5 TransformComponent)
         (typeid_name_msvc TransformComponent) idle_object))
       = [(typeid_name_msvc TransformComponent, Some (Component 5 TransformComponent)),
          (''body'', Some (Component 1 RendererComponent))]"
    by code_simp
  have m7: "m_umNameToComp (fst (snd (AddComponentT typeid_name_msvc TransformComponent 7
       (fst (AddComponent (Component 6 PlayerInputSimulatorComponent)
          (typeid_name_msvc TransformComponent) idle_object)))))
      = [(typeid_name_msvc TransformComponent, Some (Component 7 TransformComponent)),
         (''body'', Some (Component 1 RendererComponent))]"
    by code_simp
  have yes: "is_base_of TransformComponent (dynamic_type (Component 5 TransformComponent))"
    and no: "\<not> is_base_of TransformComponent (dynamic_type (Component 6 PlayerInputSimulatorComponent))"
    by simp_all
  from typed_and_named_share_one_map
         [OF d, of typeid_name_msvc TransformComponent "Component 5 TransformComponent" 7 7]
  have g5: "GetComponentT typeid_name_msvc TransformComponent
       (fst (AddComponent (Component 5 TransformComponent)
          (typeid_name_msvc TransformComponent) idle_object))
      = (if is_base_of TransformComponent (dynamic_type (Component 5 TransformComponent))
         then Some (Component 5 TransformComponent) else None)"
    by blast
  from typed_and_named_share_one_map
         [OF d, of typeid_name_msvc TransformComponent "Component 6 PlayerInputSimulatorComponent" 7 7]
  have g6: "GetComponentT typeid_name_msvc TransformComponent
       (fst (AddComponent (Component 6 PlayerInputSimulatorComponent)
          (typeid_name_msvc TransformComponent) idle_object))
      = (if is_base_of TransformComponent (dynamic_type (Component 6 PlayerInputSimulatorComponent))
         then Some (Component 6 PlayerInputSimulatorComponent) else None)"
    and r6: "snd (RemoveComponentT typeid_name_msvc TransformComponent
       (fst (AddComponent (Component 6 PlayerInputSimulatorComponent)
          (typeid_name_msvc TransformComponent) idle_object)))
      = [(OnRelease, Component 6 PlayerInputSimulatorComponent)]"
    by blast+
  from g5 yes have e5: "GetComponentT typeid_name_msvc TransformComponent
       (fst (AddComponent (Component 5 TransformComponent)
          (typeid_name_msvc TransformComponent) idle_object))
      = Some (Component 5 TransformComponent)"
    by simp
  from g6 no have e6: "GetComponentT typeid_name_msvc TransformComponent
       (fst (AddComponent (Component 6 PlayerInputSimulatorComponent)
          (typeid_name_msvc TransformComponent) idle_object))
      = None"
    by simp
  from d m5 e5 e6 r6 m7 show ?thesis by blast
qed

text \<open>
  Claim C6 as it is stated fails for a component of another class: a
  \<open>RendererComponent\<close> attached by name under the key of \<open>TransformComponent\<close> is not
  returned by \<open>GetComponent<TransformComponent>()\<close>, the cast fails.
\<close>

theorem typed_lookup_of_named_attach_counterexample:
  "GetComponentT typeid_name_msvc TransformComponent
     (fst (AddComponent (Component 0 RendererComponent)
        (typeid_name_msvc TransformComponent) new_GameObject)) = None"
  by code_simp

section \<open>Properties of ObjectManager\<close>

subsection \<open>Names as C strings\<close>

lemma takeWhile_terminated:
  "takeWhile (\<lambda>c. c \<noteq> NUL) (s @ [NUL]) = takeWhile (\<lambda>c. c \<noteq> NUL) s"
  by (induction s) simp_all

lemma c_str_at_view_of: "c_str_at (view_of s) = Inr (c_str s)"
  by (simp add: c_str_at_def view_of_def c_str_def takeWhile_terminated)

lemma c_str_plain: "NUL \<notin> set s \<Longrightarrow> c_str s = s"
  by (induction s) (auto simp: c_str_def)

lemma c_str_no_NUL: "NUL \<notin> set (c_str s)"
  unfolding c_str_def by (auto dest: set_takeWhileD)

lemma c_str_idem: "c_str (c_str s) = c_str s"
  by (rule c_str_plain) (rule c_str_no_NUL)

subsection \<open>The name of a new object\<close>

text \<open>
  \<open>CreateObjName\<close> returns \<open>resultName\<close>, which is assigned inside the loop only. For a
  base name that is not in the index the loop is left at once and the result is the
  empty string; for a base name that is in the index the result is the base name with
  the smallest number from 1 on whose name is not in the index.
\<close>

lemma CreateObjName_fresh:
  "c_str_at a_baseName = Inr base \<Longrightarrow> map_of m base = None \<Longrightarrow>
     CreateObjName m a_baseName = Inr []"
  by (simp add: CreateObjName_def CreateObjName_loop.simps)

lemma CreateObjName_loop_taken:
  "\<not> isFirstName \<Longrightarrow>
     \<exists>k\<ge>i. CreateObjName_loop m b i isFirstName r = b @ to_string k
          \<and> map_of m (b @ to_string k) = None
          \<and> (\<forall>j. i \<le> j \<and> j < k \<longrightarrow> map_of m (b @ to_string j) \<noteq> None)"
proof (induction m b i isFirstName r rule: CreateObjName_loop.induct)
  case (1 m b i isFirstName r)
  show ?case
  proof (cases "map_of m (b @ to_string i) = None")
    case True
    then have "CreateObjName_loop m b i isFirstName r = b @ to_string i"
      using "1.prems"
      by (simp add: CreateObjName_loop.simps [of m b i]
            CreateObjName_loop.simps [of m b "Suc i" True] Let_def)
    with True show ?thesis by auto
  next
    case False
    with "1.prems" "1.IH" [OF "1.prems" refl]
    obtain k where k: "k \<ge> i + 1"
      "CreateObjName_loop m b (i + 1) isFirstName (b @ to_string i) = b @ to_string k"
      "map_of m (b @ to_string k) = None"
      "\<forall>j. i + 1 \<le> j \<and> j < k \<longrightarrow> map_of m (b @ to_string j) \<noteq> None"
      by auto
    have "CreateObjName_loop m b i isFirstName r = b @ to_string k"
      using "1.prems" False k(2) by (auto simp: CreateObjName_loop.simps [of m b i] Let_def)
    moreover have "\<forall>j. i \<le> j \<and> j < k \<longrightarrow> map_of m (b @ to_string j) \<noteq> None"
    proof (intro allI impI)
      fix j assume "i \<le> j \<and> j < k"
      then have "j = i \<or> (i + 1 \<le> j \<and> j < k)" by auto
      with False k(4) show "map_of m (b @ to_string j) \<noteq> None" by blast
    qed
    ultimately show ?thesis using k(1,3) by (metis add_leD1)
  qed
qed

lemma CreateObjName_taken:
  assumes "c_str_at a_baseName = Inr base" and "map_of m base \<noteq> None"
  shows "\<exists>k\<ge>1. CreateObjName m a_baseName = Inr (base @ to_string k)
          \<and> map_of m (base @ to_string k) = None
          \<and> (\<forall>j. 1 \<le> j \<and> j < k \<longrightarrow> map_of m (base @ to_string j) \<noteq> None)"
  using assms CreateObjName_loop_taken [of False 1 m base "[]"]
  by (auto simp: CreateObjName_def)

text \<open>A call with the view of a string does not fail, nor does a sequence of such calls.\<close>

lemma GenerateObject_of_string: "\<not> isl (GenerateObject (view_of s) w)"
  by (simp add: GenerateObject_def CreateObjName_def c_str_at_view_of Let_def)

lemma generate_all_of_strings: "\<not> isl (generate_all (map view_of ss) w)"
proof (induction ss arbitrary: w)
  case Nil
  then show ?case by simp
next
  case (Cons s ss)
  from GenerateObject_of_string [of s w]
  obtain a w' where "GenerateObject (view_of s) w = Inr (a, w')"
    by (cases "GenerateObject (view_of s) w") auto
  with Cons.IH [of w'] show ?case by simp
qed

lemma run_of_two_objects:
  "generate_all [view_of ''Player'', view_of ''Enemy''] new_world = Inr two_objects"
proof -
  have "\<not> isl (generate_all [view_of ''Player'', view_of ''Enemy''] new_world)"
    by code_simp
  then show ?thesis
    unfolding two_objects_def by simp
qed

lemma run_of_three_objects:
  "generate_all [view_of ''X'', view_of ''X'', view_of ''X''] new_world = Inr three_objects"
proof -
  have "\<not> isl (generate_all [view_of ''X'', view_of ''X'', view_of ''X''] new_world)"
    by code_simp
  then show ?thesis
    unfolding three_objects_def by simp
qed

text \<open>
  Claim C1 on the code: three \<open>GenerateObject("X")\<close> on a new manager name all three
  objects with the empty string, not \<open>X\<close>, \<open>X1\<close>, \<open>X2\<close>; the two objects \<open>main\<close>
  generates as \<open>Player\<close> and \<open>Enemy\<close> are both named with the empty string, and
  \<open>GetObject("Player")\<close> finds nothing.
\<close>

theorem GenerateObject_names_new_objects_empty:
  "generate_all [view_of ''X'', view_of ''X'', view_of ''X''] new_world = Inr three_objects
   \<and> object_names three_objects = ['''', '''', '''']
   \<and> generate_all [view_of ''Player'', view_of ''Enemy''] new_world = Inr two_objects
   \<and> object_names two_objects = ['''', '''']
   \<and> GetObject (view_of ''Player'') two_objects = Inr None"
proof -
  have "object_names three_objects = ['''', '''', '''']"
    and "object_names two_objects = ['''', '''']"
    and "GetObject (view_of ''Player'') two_objects = Inr None"
    by code_simp+
  with run_of_two_objects run_of_three_objects show ?thesis by blast
qed

text \<open>
  Claim C3 on the code: after the two \<open>GenerateObject\<close> calls of \<open>main\<close> the collection
  holds two objects and the index one entry, for the empty name and the second
  object; the first object is not in the index under its name.
\<close>

theorem index_bijection_broken:
  "generate_all [view_of ''Player'', view_of ''Enemy''] new_world = Inr two_objects
   \<and> m_lObjects two_objects = [0, 1]
   \<and> m_umNameToObjPtr two_objects = [('''', 1)]
   \<and> \<not> indexed_under_its_name two_objects 0
   \<and> \<not> index_bijection two_objects"
proof -
  have "m_lObjects two_objects = [0, 1]"
    and "m_umNameToObjPtr two_objects = [('''', 1)]"
    and "\<not> indexed_under_its_name two_objects 0"
    and "\<not> index_bijection two_objects"
    by code_simp+
  with run_of_two_objects show ?thesis by blast
qed

subsection \<open>The reclamation pass\<close>

lemma released_fields [simp]:
  "m_lObjects (released a w) = m_lObjects w"
  "m_umNameToObjPtr (released a w) = m_umNameToObjPtr w"
  "held (released a w) = held w"
  "next_addr (released a w) = next_addr w"
  by (simp_all add: released_def split: option.splits)

lemma released_heap_other: "b \<noteq> a \<Longrightarrow> heap (released a w) b = heap w b"
  by (simp add: released_def split: option.splits)

lemma released_heap_cases: "heap (released a w) b = heap w b \<or> (b = a \<and> heap (released a w) b = None)"
  by (simp add: released_def split: option.splits)

lemma released_trace:
  "trace (released a w) =
     trace w @ (case heap w a of
                  None \<Rightarrow> []
                | Some obj \<Rightarrow>
                    if use_count w a = 0 then dispatch OnRelease (m_umNameToComp obj) else [])"
  by (simp add: released_def destructor_def split: option.splits)

lemma active_at_released:
  "\<not> active_at w p \<Longrightarrow> active_at (released p w) a = active_at w a"
  using released_heap_cases [of p w a]
  by (auto simp: active_at_def split: option.splits)

lemma loop_objects:
  "m_lObjects w = front @ rest \<Longrightarrow>
     m_lObjects (RemoveUnActuveObjects_loop front rest w) = front @ filter (active_at w) rest"
proof (induction rest arbitrary: front w)
  case Nil
  then show ?case by simp
next
  case (Cons p rest)
  show ?case
  proof (cases "heap w p")
    case None
    let ?w1 = "w\<lparr>m_lObjects := front @ rest\<rparr>"
    have na: "\<not> active_at ?w1 p" using None by (simp add: active_at_def)
    have "m_lObjects (released p ?w1) = front @ rest" by simp
    from Cons.IH [OF this]
    have "m_lObjects (RemoveUnActuveObjects_loop front rest (released p ?w1))
            = front @ filter (active_at (released p ?w1)) rest" .
    moreover have "active_at (released p ?w1) = active_at w"
    proof
      fix a show "active_at (released p ?w1) a = active_at w a"
        using active_at_released [OF na, of a] by (simp add: active_at_def)
    qed
    ultimately show ?thesis using None
      by (simp add: active_at_def [of w p])
  next
    case (Some obj)
    show ?thesis
    proof (cases "IsActive obj")
      case True
      have "m_lObjects w = (front @ [p]) @ rest" using Cons.prems by simp
      from Cons.IH [OF this] Some True show ?thesis
        by (simp add: active_at_def [of w p])
    next
      case False
      let ?w1 = "w\<lparr>m_umNameToObjPtr := AList.delete (c_str (GetName obj)) (m_umNameToObjPtr w),
                     m_lObjects := front @ rest\<rparr>"
      have na: "\<not> active_at ?w1 p" using Some False by (simp add: active_at_def)
      have "m_lObjects (released p ?w1) = front @ rest" by simp
      from Cons.IH [OF this]
      have "m_lObjects (RemoveUnActuveObjects_loop front rest (released p ?w1))
              = front @ filter (active_at (released p ?w1)) rest" .
      moreover have "active_at (released p ?w1) = active_at w"
      proof
        fix a show "active_at (released p ?w1) a = active_at w a"
          using active_at_released [OF na, of a] by (simp add: active_at_def)
      qed
      ultimately show ?thesis using Some False
        by (simp add: active_at_def [of w p])
    qed
  qed
qed

lemma loop_heap:
  "active_at w a \<Longrightarrow> heap (RemoveUnActuveObjects_loop front rest w) a = heap w a"
proof (induction rest arbitrary: front w)
  case Nil
  then show ?case by simp
next
  case (Cons p rest)
  show ?case
  proof (cases "heap w p")
    case None
    let ?w1 = "w\<lparr>m_lObjects := front @ rest\<rparr>"
    have na: "\<not> active_at ?w1 p" using None by (simp add: active_at_def)
    have ne: "a \<noteq> p" using None Cons.prems by (auto simp: active_at_def)
    have "active_at (released p ?w1) a"
      using active_at_released [OF na, of a] Cons.prems by (simp add: active_at_def)
    from Cons.IH [OF this] ne None show ?thesis
      by (simp add: released_heap_other)
  next
    case (Some obj)
    show ?thesis
    proof (cases "IsActive obj")
      case True
      with Some Cons.IH [OF Cons.prems] show ?thesis by simp
    next
      case False
      let ?w1 = "w\<lparr>m_umNameToObjPtr := AList.delete (c_str (GetName obj)) (m_umNameToObjPtr w),
                     m_lObjects := front @ rest\<rparr>"
      have na: "\<not> active_at ?w1 p" using Some False by (simp add: active_at_def)
      have ne: "a \<noteq> p" using Some False Cons.prems by (auto simp: active_at_def)
      have "active_at (released p ?w1) a"
        using active_at_released [OF na, of a] Cons.prems by (simp add: active_at_def)
      from Cons.IH [OF this] ne Some False show ?thesis
        by (simp add: released_heap_other)
    qed
  qed
qed

lemma loop_all_active:
  "\<forall>a\<in>set rest. active_at w a \<Longrightarrow> RemoveUnActuveObjects_loop front rest w = w"
  by (induction rest arbitrary: front) (auto simp: active_at_def split: option.splits)

lemma Update_objects:
  "m_lObjects (ObjectManager_Update w) = filter (active_at w) (m_lObjects w)"
  using loop_objects [of w "[]" "m_lObjects w"]
  by (simp add: ObjectManager_Update_def RemoveUnActuveObjects_def)

lemma Update_heap:
  "active_at w a \<Longrightarrow> heap (ObjectManager_Update w) a = heap w a"
  by (simp add: ObjectManager_Update_def RemoveUnActuveObjects_def loop_heap)

lemma Update_idem: "ObjectManager_Update (ObjectManager_Update w) = ObjectManager_Update w"
proof -
  let ?w = "ObjectManager_Update w"
  have "\<forall>a\<in>set (m_lObjects ?w). active_at ?w a"
  proof
    fix a assume "a \<in> set (m_lObjects ?w)"
    then have act: "active_at w a" by (simp add: Update_objects)
    then have "heap ?w a = heap w a" by (rule Update_heap)
    with act show "active_at ?w a" by (simp add: active_at_def)
  qed
  then show ?thesis
    using loop_all_active [of "m_lObjects ?w" ?w "[]"]
    by (simp add: ObjectManager_Update_def RemoveUnActuveObjects_def)
qed

text \<open>
  Claim C9. After \<open>Update\<close> the collection is the collection of before without the
  objects whose active flag is false, the others in the order they had; and every
  object that stays is as it was (components, flags and name).
\<close>

theorem Update_removes_exactly_the_inactive:
  "m_lObjects (ObjectManager_Update w) = filter (active_at w) (m_lObjects w)
   \<and> (\<forall>a. active_at w a \<longrightarrow> heap (ObjectManager_Update w) a = heap w a)"
  by (simp add: Update_objects Update_heap)

text \<open>Two objects, the first deactivated: the second stays, untouched.\<close>

theorem Update_removes_exactly_the_inactive_witness:
  "active_at one_inactive 1 \<and> \<not> active_at one_inactive 0
   \<and> m_lObjects one_inactive = [0, 1]
   \<and> m_lObjects (ObjectManager_Update one_inactive) = [1]
   \<and> heap (ObjectManager_Update one_inactive) 1 = heap one_inactive 1"
proof -
  have a: "active_at one_inactive 1" and b: "\<not> active_at one_inactive 0"
    and l: "m_lObjects one_inactive = [0, 1]"
    by code_simp+
  from Update_removes_exactly_the_inactive [of one_inactive] a b l show ?thesis
    by simp
qed

lemma loop_index_None:
  "map_of (m_umNameToObjPtr w) k = None \<Longrightarrow>
     map_of (m_umNameToObjPtr (RemoveUnActuveObjects_loop front rest w)) k = None"
proof (induction rest arbitrary: front w)
  case Nil
  then show ?case by simp
next
  case (Cons p rest)
  show ?case
  proof (cases "heap w p")
    case None
    have "map_of (m_umNameToObjPtr (released p (w\<lparr>m_lObjects := front @ rest\<rparr>))) k = None"
      using Cons.prems by simp
    from Cons.IH [OF this] None show ?thesis by simp
  next
    case (Some obj)
    show ?thesis
    proof (cases "IsActive obj")
      case True
      with Some Cons.IH [OF Cons.prems] show ?thesis by simp
    next
      case False
      have "map_of (m_umNameToObjPtr (released p
              (w\<lparr>m_umNameToObjPtr := AList.delete (c_str (GetName obj)) (m_umNameToObjPtr w),
                 m_lObjects := front @ rest\<rparr>))) k = None"
        using Cons.prems by (simp add: delete_conv')
      from Cons.IH [OF this] Some False show ?thesis by simp
    qed
  qed
qed

lemma loop_index_erased:
  "a \<in> set rest \<Longrightarrow> heap w a = Some obj \<Longrightarrow> \<not> IsActive obj \<Longrightarrow>
     map_of (m_umNameToObjPtr (RemoveUnActuveObjects_loop front rest w)) (c_str (GetName obj)) = None"
proof (induction rest arbitrary: front w)
  case Nil
  then show ?case by simp
next
  case (Cons p rest)
  show ?case
  proof (cases "p = a")
    case True
    have "map_of (m_umNameToObjPtr (released p
              (w\<lparr>m_umNameToObjPtr := AList.delete (c_str (GetName obj)) (m_umNameToObjPtr w),
                 m_lObjects := front @ rest\<rparr>))) (c_str (GetName obj)) = None"
      by (simp add: delete_conv')
    from loop_index_None [OF this] True Cons.prems show ?thesis by simp
  next
    case ne: False
    then have mem: "a \<in> set rest" using Cons.prems by simp
    show ?thesis
    proof (cases "heap w p")
      case None
      have "heap (released p (w\<lparr>m_lObjects := front @ rest\<rparr>)) a = Some obj"
        using ne Cons.prems by (simp add: released_heap_other)
      from Cons.IH [OF mem this Cons.prems(3)] None show ?thesis by simp
    next
      case (Some obj')
      show ?thesis
      proof (cases "IsActive obj'")
        case True
        with Some Cons.IH [OF mem Cons.prems(2,3)] show ?thesis by simp
      next
        case False
        have "heap (released p
              (w\<lparr>m_umNameToObjPtr := AList.delete (c_str (GetName obj')) (m_umNameToObjPtr w),
                 m_lObjects := front @ rest\<rparr>)) a = Some obj"
          using ne Cons.prems by (simp add: released_heap_other)
        from Cons.IH [OF mem this Cons.prems(3)] Some False show ?thesis by simp
      qed
    qed
  qed
qed

lemma release_events_cong:
  "heap w' a = heap w a \<Longrightarrow> held w' a = held w a \<Longrightarrow> release_events w' a = release_events w a"
  by (simp add: release_events_def split: option.splits)

lemma loop_trace:
  "distinct rest \<Longrightarrow> set front \<inter> set rest = {} \<Longrightarrow> m_lObjects w = front @ rest \<Longrightarrow>
     trace (RemoveUnActuveObjects_loop front rest w) =
       trace w @ concat (map (release_events w) rest)"
proof (induction rest arbitrary: front w)
  case Nil
  then show ?case by simp
next
  case (Cons p rest)
  have d: "distinct rest" and pr: "p \<notin> set rest" and pb: "p \<notin> set front"
    and br: "set front \<inter> set rest = {}"
    using Cons.prems by auto
  show ?case
  proof (cases "heap w p")
    case None
    let ?w1 = "released p (w\<lparr>m_lObjects := front @ rest\<rparr>)"
    have w1: "?w1 = w\<lparr>m_lObjects := front @ rest\<rparr>"
      using None by (simp add: released_def)
    have "trace (RemoveUnActuveObjects_loop front rest ?w1) =
            trace ?w1 @ concat (map (release_events ?w1) rest)"
      by (rule Cons.IH [OF d br]) simp
    moreover have "map (release_events ?w1) rest = map (release_events w) rest"
      by (rule map_cong [OF refl], rule release_events_cong) (simp_all add: w1)
    moreover have "release_events w p = []"
      using None by (simp add: release_events_def)
    moreover have "trace ?w1 = trace w"
      by (simp add: w1)
    ultimately show ?thesis using None
      by simp
  next
    case (Some obj)
    show ?thesis
    proof (cases "IsActive obj")
      case True
      have "trace (RemoveUnActuveObjects_loop (front @ [p]) rest w) =
              trace w @ concat (map (release_events w) rest)"
        by (rule Cons.IH [OF d]) (use br pr Cons.prems in auto)
      with Some True show ?thesis
        by (simp add: release_events_def [of w p])
    next
      case False
      let ?w0 = "w\<lparr>m_umNameToObjPtr := AList.delete (c_str (GetName obj)) (m_umNameToObjPtr w),
                     m_lObjects := front @ rest\<rparr>"
      let ?w1 = "released p ?w0"
      have uc: "use_count ?w0 p = held w p"
        using pr pb by (simp add: use_count_def)
      have tr: "trace ?w1 = trace w @ release_events w p"
        using Some False uc by (simp add: released_trace release_events_def)
      have "trace (RemoveUnActuveObjects_loop front rest ?w1) =
              trace ?w1 @ concat (map (release_events ?w1) rest)"
        by (rule Cons.IH [OF d br]) simp
      moreover have "map (release_events ?w1) rest = map (release_events w) rest"
      proof (rule map_cong [OF refl])
        fix a assume "a \<in> set rest"
        then have "a \<noteq> p" using pr by auto
        then show "release_events ?w1 a = release_events w a"
          by (intro release_events_cong) (simp_all add: released_heap_other)
      qed
      ultimately show ?thesis using Some False
        by (simp add: tr)
    qed
  qed
qed

lemma Update_trace:
  "distinct (m_lObjects w) \<Longrightarrow>
     trace (ObjectManager_Update w) = trace w @ concat (map (release_events w) (m_lObjects w))"
  using loop_trace [of "m_lObjects w" "[]" w]
  by (simp add: ObjectManager_Update_def RemoveUnActuveObjects_def)

lemma count_list_concat_map:
  "count_list (concat (map f xs)) x = sum_list (map (\<lambda>a. count_list (f a) x) xs)"
  by (induction xs) simp_all

lemma sum_list_single:
  "distinct xs \<Longrightarrow> e \<in> set xs \<Longrightarrow> \<forall>a\<in>set xs. a \<noteq> e \<longrightarrow> f a = (0::nat) \<Longrightarrow>
     sum_list (map f xs) = f e"
proof (induction xs)
  case Nil
  then show ?case by simp
next
  case (Cons x xs)
  show ?case
  proof (cases "x = e")
    case True
    then have "\<forall>a\<in>set xs. f a = 0" using Cons.prems by auto
    then have "sum_list (map f xs) = 0" by simp
    with True show ?thesis by simp
  next
    case False
    with Cons show ?thesis by auto
  qed
qed

lemma on_object_SetActive:
  "heap w e = Some obj \<Longrightarrow>
     on_object e (SetActive b) w = w\<lparr>heap := (heap w)(e \<mapsto> obj\<lparr>m_isActive := b\<rparr>)\<rparr>"
  by (simp add: on_object_def SetActive_def)

text \<open>
  In every world a caller reaches from a new manager the nodes of the collection hold
  distinct objects.
\<close>

lemma loop_next_addr: "next_addr (RemoveUnActuveObjects_loop front rest w) = next_addr w"
proof (induction rest arbitrary: front w)
  case Nil
  then show ?case by simp
next
  case (Cons p rest)
  show ?case
    by (cases "heap w p") (simp_all add: Cons.IH)
qed

lemma clear_objects_fields:
  "m_lObjects w = ps \<Longrightarrow> m_lObjects (clear_objects ps w) = []"
  "next_addr (clear_objects ps w) = next_addr w"
  by (induction ps arbitrary: w) simp_all

lemma on_object_fields [simp]:
  "m_lObjects (on_object a f w) = m_lObjects w"
  "next_addr (on_object a f w) = next_addr w"
  by (simp_all add: on_object_def split_beta split: option.splits)

lemma drop_handle_fields [simp]:
  "m_lObjects (drop_handle a w) = m_lObjects w"
  "next_addr (drop_handle a w) = next_addr w"
  by (simp_all add: drop_handle_def)

lemma perform_manager_collection:
  assumes "collection_distinct w" and "perform_manager tn c w = Inr w'"
  shows "collection_distinct w'"
proof (cases c)
  case (Call_GenerateObject v)
  with assms(2) obtain a where g: "GenerateObject v w = Inr (a, w')"
    by (cases "GenerateObject v w") auto
  then have l: "m_lObjects w' = m_lObjects w @ [next_addr w]"
    and n: "next_addr w' = Suc (next_addr w)"
    by (auto simp: GenerateObject_def Let_def split: sum.splits)
  have "next_addr w \<notin> set (m_lObjects w)"
    using assms(1) by (auto simp: collection_distinct_def list_all_iff)
  with assms(1) show ?thesis
    by (auto simp: collection_distinct_def list_all_iff l n)
next
  case Call_ManagerUpdate
  with assms(2) have w': "w' = ObjectManager_Update w" by simp
  have "next_addr (ObjectManager_Update w) = next_addr w"
    by (simp add: ObjectManager_Update_def RemoveUnActuveObjects_def loop_next_addr)
  with assms(1) show ?thesis
    by (auto simp: collection_distinct_def list_all_iff w' Update_objects)
next
  case Call_ReleaseAllObjects
  with assms(2) have w': "w' = ReleaseAllObjects w" by simp
  show ?thesis
    by (simp add: collection_distinct_def w' ReleaseAllObjects_def clear_objects_fields)
next
  case (Call_on a k)
  with assms show ?thesis
    by (auto simp: collection_distinct_def)
next
  case (Call_drop a)
  with assms show ?thesis
    by (auto simp: collection_distinct_def)
qed

lemma run_manager_collection:
  "collection_distinct w \<Longrightarrow> run_manager tn cs w = Inr w' \<Longrightarrow> collection_distinct w'"
proof (induction cs arbitrary: w)
  case Nil
  then show ?case by simp
next
  case (Cons c cs)
  from Cons.prems(2) obtain w1 where 1: "perform_manager tn c w = Inr w1"
    and 2: "run_manager tn cs w1 = Inr w'"
    by (cases "perform_manager tn c w") auto
  from Cons.IH [OF perform_manager_collection [OF Cons.prems(1) 1] 2] show ?case .
qed

lemma reachable_collection_distinct:
  "run_manager tn cs new_world = Inr w \<Longrightarrow> distinct (m_lObjects w)"
proof -
  assume r: "run_manager tn cs new_world = Inr w"
  have "collection_distinct new_world"
    by (simp add: collection_distinct_def new_world_def)
  from run_manager_collection [OF this r] show ?thesis
    by (simp add: collection_distinct_def)
qed

lemma loop_held: "held (RemoveUnActuveObjects_loop front rest w) = held w"
proof (induction rest arbitrary: front w)
  case Nil
  then show ?case by simp
next
  case (Cons p rest)
  show ?case
    by (cases "heap w p") (simp_all add: Cons.IH)
qed

lemma loop_heap_full:
  "distinct rest \<Longrightarrow> set front \<inter> set rest = {} \<Longrightarrow> m_lObjects w = front @ rest \<Longrightarrow>
     heap (RemoveUnActuveObjects_loop front rest w) a =
       (if a \<in> set rest \<and> \<not> active_at w a \<and> held w a = 0 then None else heap w a)"
proof (induction rest arbitrary: front w)
  case Nil
  then show ?case by simp
next
  case (Cons p rest)
  have d: "distinct rest" and pr: "p \<notin> set rest" and pb: "p \<notin> set front"
    and br: "set front \<inter> set rest = {}"
    using Cons.prems by auto
  show ?case
  proof (cases "heap w p")
    case None
    let ?w1 = "released p (w\<lparr>m_lObjects := front @ rest\<rparr>)"
    have w1: "?w1 = w\<lparr>m_lObjects := front @ rest\<rparr>"
      using None by (simp add: released_def)
    have "heap (RemoveUnActuveObjects_loop front rest ?w1) a =
       (if a \<in> set rest \<and> \<not> active_at ?w1 a \<and> held ?w1 a = 0 then None else heap ?w1 a)"
      by (rule Cons.IH [OF d br]) simp
    then show ?thesis using None
      by (auto simp: w1 active_at_def)
  next
    case (Some obj)
    show ?thesis
    proof (cases "IsActive obj")
      case True
      have "heap (RemoveUnActuveObjects_loop (front @ [p]) rest w) a =
         (if a \<in> set rest \<and> \<not> active_at w a \<and> held w a = 0 then None else heap w a)"
        by (rule Cons.IH [OF d]) (use br pr Cons.prems in auto)
      with Some True show ?thesis
        by (auto simp: active_at_def)
    next
      case False
      let ?w0 = "w\<lparr>m_umNameToObjPtr := AList.delete (c_str (GetName obj)) (m_umNameToObjPtr w),
                     m_lObjects := front @ rest\<rparr>"
      let ?w1 = "released p ?w0"
      have uc: "use_count ?w0 p = held w p"
        using pr pb by (simp add: use_count_def)
      have hp: "heap ?w1 p = (if held w p = 0 then None else Some obj)"
        using Some uc by (simp add: released_def)
      have ho: "b \<noteq> p \<Longrightarrow> heap ?w1 b = heap w b" for b
        by (simp add: released_heap_other)
      have ih: "heap (RemoveUnActuveObjects_loop front rest ?w1) a =
         (if a \<in> set rest \<and> \<not> active_at ?w1 a \<and> held ?w1 a = 0 then None else heap ?w1 a)"
        by (rule Cons.IH [OF d br]) simp
      show ?thesis
      proof (cases "a = p")
        case True
        with ih pr hp Some False show ?thesis
          by (simp add: active_at_def)
      next
        case ne: False
        then have "active_at ?w1 a = active_at w a"
          by (simp add: active_at_def ho)
        with ih ne Some False show ?thesis
          by (simp add: ho)
      qed
    qed
  qed
qed

lemma Update_held: "held (ObjectManager_Update w) = held w"
  by (simp add: ObjectManager_Update_def RemoveUnActuveObjects_def loop_held)

lemma Update_heap_full:
  "distinct (m_lObjects w) \<Longrightarrow>
     heap (ObjectManager_Update w) a =
       (if a \<in> set (m_lObjects w) \<and> \<not> active_at w a \<and> held w a = 0 then None else heap w a)"
  using loop_heap_full [of "m_lObjects w" "[]" w a]
  by (simp add: ObjectManager_Update_def RemoveUnActuveObjects_def)

lemma drop_handle_keep:
  "held v a = Suc (Suc n) \<Longrightarrow> drop_handle a v = v\<lparr>held := (held v)(a := Suc n)\<rparr>"
  by (simp add: drop_handle_def released_def use_count_def split: option.splits)

lemma drop_handle_last:
  assumes "held v a = Suc 0" and "a \<notin> set (m_lObjects v)" and "heap v a = Some obj"
  shows "heap (drop_handle a v) a = None"
    and "trace (drop_handle a v) = trace v @ dispatch OnRelease (m_umNameToComp obj)"
  using assms
  by (simp_all add: drop_handle_def released_def use_count_def destructor_def)

lemma drops_keep:
  "k < held v a \<Longrightarrow> (drop_handle a ^^ k) v = v\<lparr>held := (held v)(a := held v a - k)\<rparr>"
proof (induction k)
  case 0
  then show ?case by simp
next
  case (Suc k)
  let ?v = "v\<lparr>held := (held v)(a := held v a - k)\<rparr>"
  have ih: "(drop_handle a ^^ k) v = ?v"
    by (rule Suc.IH) (use Suc.prems in simp)
  obtain n where n: "held v a - k = Suc (Suc n)"
    using Suc.prems by (metis Suc_diff_Suc Suc_lessD zero_less_diff gr0_implies_Suc)
  then have hv: "held ?v a = Suc (Suc n)" by simp
  have sn: "Suc n = held v a - Suc k"
    using n by simp
  have "(drop_handle a ^^ Suc k) v = drop_handle a ((drop_handle a ^^ k) v)"
    by simp
  also have "\<dots> = drop_handle a ?v"
    by (simp only: ih)
  also have "\<dots> = ?v\<lparr>held := (held ?v)(a := Suc n)\<rparr>"
    using hv by (rule drop_handle_keep)
  also have "\<dots> = v\<lparr>held := (held v)(a := held v a - Suc k)\<rparr>"
    unfolding sn by simp
  finally show ?case .
qed

lemma drops_last:
  assumes "0 < held v a" and "a \<notin> set (m_lObjects v)" and "heap v a = Some obj"
  shows "heap ((drop_handle a ^^ held v a) v) a = None"
    and "trace ((drop_handle a ^^ held v a) v) = trace v @ dispatch OnRelease (m_umNameToComp obj)"
proof -
  obtain m where m: "held v a = Suc m"
    using assms(1) by (auto dest: gr0_implies_Suc)
  let ?v = "v\<lparr>held := (held v)(a := Suc 0)\<rparr>"
  have "(drop_handle a ^^ m) v = v\<lparr>held := (held v)(a := held v a - m)\<rparr>"
    by (rule drops_keep) (simp add: m)
  then have step: "(drop_handle a ^^ held v a) v = drop_handle a ?v"
    by (simp add: m)
  have 1: "held ?v a = Suc 0" and 2: "a \<notin> set (m_lObjects ?v)" and 3: "heap ?v a = Some obj"
    using assms by simp_all
  from drop_handle_last [OF 1 2 3]
  show "heap ((drop_handle a ^^ held v a) v) a = None"
    and "trace ((drop_handle a ^^ held v a) v) = trace v @ dispatch OnRelease (m_umNameToComp obj)"
    by (simp_all add: step)
qed

text \<open>
  Claim C4, as amended. Let an object of the collection (whose nodes hold distinct
  objects, as in every world reached from a new manager) have the name \<open>name\<close>, and let \<open>SetActive(false)\<close> be called on it and then
  \<open>Update\<close> on the manager. The object has left the collection, \<open>GetObject(name)\<close> is
  empty and stays empty after a further \<open>Update\<close>, which dispatches nothing. If no
  caller holds a pointer to the object, \<open>Update\<close> has destroyed it and has invoked
  \<open>OnRelease\<close> on each of its components once for each key the component is stored
  under: exactly once for a component under one key. If callers hold pointers to it
  (such as the one \<open>GenerateObject\<close> returned), the object is alive after \<open>Update\<close> and no
  \<open>OnRelease\<close> has been invoked on its components; it stays so until the callers have
  given up all their pointers but one; when the last is given up the object is
  destroyed and \<open>OnRelease\<close> is invoked on its components, once for each key. The
  count is that of a component attached to no other object of the collection.
\<close>

theorem deactivated_object_is_reclaimed:
  assumes d: "distinct (m_lObjects w)"
    and e: "e \<in> set (m_lObjects w)"
    and h: "heap w e = Some obj"
    and n: "GetName obj = name"
    and other: "\<forall>a\<in>set (m_lObjects w). a \<noteq> e \<longrightarrow>
                  (\<forall>obj'. heap w a = Some obj' \<longrightarrow> c \<notin> set (attached (m_umNameToComp obj')))"
  shows "GetObject (view_of name) (deactivate_and_update e w) = Inr None
       \<and> GetObject (view_of name) (ObjectManager_Update (deactivate_and_update e w)) = Inr None
       \<and> e \<notin> set (m_lObjects (deactivate_and_update e w))
       \<and> trace (ObjectManager_Update (deactivate_and_update e w)) = trace (deactivate_and_update e w)
       \<and> (held w e = 0 \<longrightarrow>
            heap (deactivate_and_update e w) e = None
          \<and> count_list (trace (deactivate_and_update e w)) (OnRelease, c) =
              count_list (trace w) (OnRelease, c) + count_list (attached (m_umNameToComp obj)) c)
       \<and> (0 < held w e \<longrightarrow>
            heap (deactivate_and_update e w) e = Some (obj\<lparr>m_isActive := False\<rparr>)
          \<and> count_list (trace (deactivate_and_update e w)) (OnRelease, c) =
              count_list (trace w) (OnRelease, c)
          \<and> (\<forall>k<held w e.
                heap ((drop_handle e ^^ k) (deactivate_and_update e w)) e
                  = Some (obj\<lparr>m_isActive := False\<rparr>)
              \<and> trace ((drop_handle e ^^ k) (deactivate_and_update e w))
                  = trace (deactivate_and_update e w))
          \<and> heap ((drop_handle e ^^ held w e) (deactivate_and_update e w)) e = None
          \<and> trace ((drop_handle e ^^ held w e) (deactivate_and_update e w))
              = trace (deactivate_and_update e w) @ dispatch OnRelease (m_umNameToComp obj))"
proof -
  let ?obj = "obj\<lparr>m_isActive := False\<rparr>"
  let ?w1 = "w\<lparr>heap := (heap w)(e \<mapsto> ?obj)\<rparr>"
  let ?w2 = "deactivate_and_update e w"
  have w1: "on_object e (SetActive False) w = ?w1"
    using h by (rule on_object_SetActive)
  have du: "?w2 = ObjectManager_Update ?w1"
    by (simp add: deactivate_and_update_def w1)
  have inact: "\<not> active_at ?w1 e"
    by (simp add: active_at_def IsActive_def)
  have "map_of (m_umNameToObjPtr (RemoveUnActuveObjects_loop [] (m_lObjects ?w1) ?w1))
          (c_str (GetName ?obj)) = None"
    by (rule loop_index_erased [of e]) (use e in \<open>simp_all add: IsActive_def\<close>)
  then have idx: "map_of (m_umNameToObjPtr ?w2) (c_str name) = None"
    using n by (simp add: du ObjectManager_Update_def RemoveUnActuveObjects_def GetName_def)
  then have 1: "GetObject (view_of name) ?w2 = Inr None"
    by (simp add: GetObject_def c_str_at_view_of)
  have 2: "GetObject (view_of name) (ObjectManager_Update ?w2) = Inr None"
    using 1 by (simp add: du Update_idem)
  have 3: "e \<notin> set (m_lObjects ?w2)"
    using inact by (simp add: du Update_objects)
  have 4: "trace (ObjectManager_Update ?w2) = trace ?w2"
    by (simp add: du Update_idem)
  have hp: "heap ?w2 e = (if held w e = 0 then None else Some ?obj)"
    using d e inact by (simp add: du Update_heap_full)
  have hd: "held ?w2 e = held w e"
    by (simp add: du Update_held)
  have tr: "trace ?w2 = trace w @ concat (map (release_events ?w1) (m_lObjects w))"
    using Update_trace [of ?w1] d by (simp add: du)
  have at_e: "count_list (release_events ?w1 e) (OnRelease, c) =
                (if held w e = 0 then count_list (attached (m_umNameToComp obj)) c else 0)"
    by (simp add: release_events_def IsActive_def count_dispatch)
  have elsewhere: "\<forall>a\<in>set (m_lObjects w). a \<noteq> e \<longrightarrow>
      count_list (release_events ?w1 a) (OnRelease, c) = 0"
  proof (intro ballI impI)
    fix a assume a: "a \<in> set (m_lObjects w)" and ne: "a \<noteq> e"
    show "count_list (release_events ?w1 a) (OnRelease, c) = 0"
    proof (cases "heap w a")
      case None
      with ne show ?thesis by (simp add: release_events_def)
    next
      case (Some obj')
      with other a ne have "c \<notin> set (attached (m_umNameToComp obj'))" by blast
      with Some ne show ?thesis
        by (simp add: release_events_def count_dispatch)
    qed
  qed
  have "sum_list (map (\<lambda>a. count_list (release_events ?w1 a) (OnRelease, c)) (m_lObjects w))
          = count_list (release_events ?w1 e) (OnRelease, c)"
    by (rule sum_list_single [OF d e elsewhere])
  then have cnt: "count_list (trace ?w2) (OnRelease, c) =
           count_list (trace w) (OnRelease, c)
             + (if held w e = 0 then count_list (attached (m_umNameToComp obj)) c else 0)"
    by (simp only: tr count_list_append count_list_concat_map at_e)
  have 5: "held w e = 0 \<longrightarrow>
            heap ?w2 e = None
          \<and> count_list (trace ?w2) (OnRelease, c) =
              count_list (trace w) (OnRelease, c) + count_list (attached (m_umNameToComp obj)) c"
    using hp cnt by simp
  have 6: "0 < held w e \<longrightarrow>
            heap ?w2 e = Some ?obj
          \<and> count_list (trace ?w2) (OnRelease, c) = count_list (trace w) (OnRelease, c)
          \<and> (\<forall>k<held w e.
                heap ((drop_handle e ^^ k) ?w2) e = Some ?obj
              \<and> trace ((drop_handle e ^^ k) ?w2) = trace ?w2)
          \<and> heap ((drop_handle e ^^ held w e) ?w2) e = None
          \<and> trace ((drop_handle e ^^ held w e) ?w2)
              = trace ?w2 @ dispatch OnRelease (m_umNameToComp obj)"
  proof
    assume pos: "0 < held w e"
    have alive: "heap ?w2 e = Some ?obj"
      using hp pos by simp
    have same: "count_list (trace ?w2) (OnRelease, c) = count_list (trace w) (OnRelease, c)"
      using cnt pos by simp
    have keep: "\<forall>k<held w e.
                heap ((drop_handle e ^^ k) ?w2) e = Some ?obj
              \<and> trace ((drop_handle e ^^ k) ?w2) = trace ?w2"
    proof (intro allI impI)
      fix k assume "k < held w e"
      then have "k < held ?w2 e" by (simp add: hd)
      then have "(drop_handle e ^^ k) ?w2 = ?w2\<lparr>held := (held ?w2)(e := held ?w2 e - k)\<rparr>"
        by (rule drops_keep)
      then show "heap ((drop_handle e ^^ k) ?w2) e = Some ?obj
              \<and> trace ((drop_handle e ^^ k) ?w2) = trace ?w2"
        using alive by simp
    qed
    have pos2: "0 < held ?w2 e" using pos by (simp add: hd)
    from drops_last [OF pos2 3 alive]
    have "heap ((drop_handle e ^^ held w e) ?w2) e = None"
      and "trace ((drop_handle e ^^ held w e) ?w2)
              = trace ?w2 @ dispatch OnRelease (m_umNameToComp obj)"
      by (simp_all add: hd)
    with alive same keep show "heap ?w2 e = Some ?obj
          \<and> count_list (trace ?w2) (OnRelease, c) = count_list (trace w) (OnRelease, c)
          \<and> (\<forall>k<held w e.
                heap ((drop_handle e ^^ k) ?w2) e = Some ?obj
              \<and> trace ((drop_handle e ^^ k) ?w2) = trace ?w2)
          \<and> heap ((drop_handle e ^^ held w e) ?w2) e = None
          \<and> trace ((drop_handle e ^^ held w e) ?w2)
              = trace ?w2 @ dispatch OnRelease (m_umNameToComp obj)"
      by blast
  qed
  from 1 2 3 4 5 6 show ?thesis by blast
qed

text \<open>
  The object of \<open>released_scenario\<close>, to which no caller holds a pointer, is destroyed
  by \<open>Update\<close> and its component released once. The object of \<open>enemy_scenario\<close>, to which
  its creator holds a pointer, is alive after \<open>Update\<close> with its component unreleased;
  when the creator gives the pointer up the object is destroyed and the component
  released once.
\<close>

theorem deactivated_object_is_reclaimed_witness:
  "held released_scenario 0 = 0
   \<and> GetObject (view_of []) released_scenario = Inr (Some 0)
   \<and> GetObject (view_of []) (deactivate_and_update 0 released_scenario) = Inr None
   \<and> heap (deactivate_and_update 0 released_scenario) 0 = None
   \<and> count_list (trace released_scenario) (OnRelease, Component 100 TransformComponent) = 0
   \<and> count_list (trace (deactivate_and_update 0 released_scenario))
        (OnRelease, Component 100 TransformComponent) = 1
   \<and> count_list (trace (ObjectManager_Update (deactivate_and_update 0 released_scenario)))
        (OnRelease, Component 100 TransformComponent) = 1
   \<and> held enemy_scenario 0 = 1
   \<and> GetObject (view_of []) (deactivate_and_update 0 enemy_scenario) = Inr None
   \<and> heap (deactivate_and_update 0 enemy_scenario) 0 \<noteq> None
   \<and> count_list (trace (deactivate_and_update 0 enemy_scenario))
        (OnRelease, Component 100 TransformComponent) = 0
   \<and> heap (drop_handle 0 (deactivate_and_update 0 enemy_scenario)) 0 = None
   \<and> count_list (trace (drop_handle 0 (deactivate_and_update 0 enemy_scenario)))
        (OnRelease, Component 100 TransformComponent) = 1"
proof -
  let ?obj = "\<lparr>m_isCalledUpdate = True, m_isActive = True, m_name = [],
     m_umNameToComp = [(''class TransformComponent'', Some (Component 100 TransformComponent))]\<rparr>"
  let ?c = "Component 100 TransformComponent"
  have n: "GetName ?obj = []" by (simp add: GetName_def)
  have c: "count_list (attached (m_umNameToComp ?obj)) ?c = 1"
    by code_simp
  have dc: "count_list (dispatch OnRelease (m_umNameToComp ?obj)) (OnRelease, ?c) = 1"
    by code_simp
  \<comment> \<open>no caller holds a pointer\<close>
  have l: "m_lObjects released_scenario = [0]" by code_simp
  have h: "heap released_scenario 0 = Some ?obj" by code_simp
  have z: "held released_scenario 0 = 0" by code_simp
  have g: "GetObject (view_of []) released_scenario = Inr (Some 0)" by code_simp
  have t: "count_list (trace released_scenario) (OnRelease, ?c) = 0"
    by code_simp
  have d: "distinct (m_lObjects released_scenario)" and e: "0 \<in> set (m_lObjects released_scenario)"
    by (simp_all add: l)
  have o: "\<forall>a\<in>set (m_lObjects released_scenario). a \<noteq> 0 \<longrightarrow>
     (\<forall>obj'. heap released_scenario a = Some obj' \<longrightarrow>
        ?c \<notin> set (attached (m_umNameToComp obj')))"
    by (simp add: l)
  from deactivated_object_is_reclaimed [OF d e h n o] z
  have r1: "GetObject (view_of []) (deactivate_and_update 0 released_scenario) = Inr None"
    and r2: "trace (ObjectManager_Update (deactivate_and_update 0 released_scenario))
               = trace (deactivate_and_update 0 released_scenario)"
    and r3: "heap (deactivate_and_update 0 released_scenario) 0 = None"
    and r4: "count_list (trace (deactivate_and_update 0 released_scenario)) (OnRelease, ?c) =
              count_list (trace released_scenario) (OnRelease, ?c)
                + count_list (attached (m_umNameToComp ?obj)) ?c"
    by blast+
  have r5: "count_list (trace (deactivate_and_update 0 released_scenario)) (OnRelease, ?c) = 1"
    by (simp only: r4 t c)
  have r6: "count_list (trace (ObjectManager_Update (deactivate_and_update 0 released_scenario)))
        (OnRelease, ?c) = 1"
    by (simp only: r2 r5)
  \<comment> \<open>the creator holds a pointer\<close>
  have l': "m_lObjects enemy_scenario = [0]" by code_simp
  have h': "heap enemy_scenario 0 = Some ?obj" by code_simp
  have z': "held enemy_scenario 0 = 1" by code_simp
  have t': "count_list (trace enemy_scenario) (OnRelease, ?c) = 0"
    by code_simp
  have d': "distinct (m_lObjects enemy_scenario)" and e': "0 \<in> set (m_lObjects enemy_scenario)"
    by (simp_all add: l')
  have o': "\<forall>a\<in>set (m_lObjects enemy_scenario). a \<noteq> 0 \<longrightarrow>
     (\<forall>obj'. heap enemy_scenario a = Some obj' \<longrightarrow>
        ?c \<notin> set (attached (m_umNameToComp obj')))"
    by (simp add: l')
  have pos: "0 < held enemy_scenario 0" by (simp add: z')
  from deactivated_object_is_reclaimed [OF d' e' h' n o'] pos
  have s1: "GetObject (view_of []) (deactivate_and_update 0 enemy_scenario) = Inr None"
    and s2: "heap (deactivate_and_update 0 enemy_scenario) 0 = Some (?obj\<lparr>m_isActive := False\<rparr>)"
    and s3: "count_list (trace (deactivate_and_update 0 enemy_scenario)) (OnRelease, ?c) =
              count_list (trace enemy_scenario) (OnRelease, ?c)"
    and s4: "heap ((drop_handle 0 ^^ held enemy_scenario 0) (deactivate_and_update 0 enemy_scenario)) 0
               = None"
    and s5: "trace ((drop_handle 0 ^^ held enemy_scenario 0) (deactivate_and_update 0 enemy_scenario))
              = trace (deactivate_and_update 0 enemy_scenario)
                @ dispatch OnRelease (m_umNameToComp ?obj)"
    by blast+
  have once: "(drop_handle 0 ^^ held enemy_scenario 0) (deactivate_and_update 0 enemy_scenario)
                = drop_handle 0 (deactivate_and_update 0 enemy_scenario)"
    by (simp add: z')
  have s6: "heap (deactivate_and_update 0 enemy_scenario) 0 \<noteq> None"
    by (simp add: s2)
  have s7: "count_list (trace (deactivate_and_update 0 enemy_scenario)) (OnRelease, ?c) = 0"
    by (simp only: s3 t')
  have s8: "heap (drop_handle 0 (deactivate_and_update 0 enemy_scenario)) 0 = None"
    using s4 by (simp only: once)
  have "trace (drop_handle 0 (deactivate_and_update 0 enemy_scenario))
              = trace (deactivate_and_update 0 enemy_scenario)
                @ dispatch OnRelease (m_umNameToComp ?obj)"
    using s5 by (simp only: once)
  then have s9: "count_list (trace (drop_handle 0 (deactivate_and_update 0 enemy_scenario)))
        (OnRelease, ?c) = 1"
    by (simp only: count_list_append s7 dc)
  from z g r1 r3 t r5 r6 z' s1 s6 s7 s8 s9 show ?thesis by blast
qed

text \<open>
  Claim C4 as it is stated fails in three ways. While the creator holds the pointer
  \<open>GenerateObject\<close> returned, as \<open>main\<close> does, the component of the deactivated object has
  not been released after \<open>Update\<close>. A component attached to the object under two keys
  is released twice. A component attached to two objects that are both inactive is
  released twice.
\<close>

theorem held_object_not_released_counterexample:
  "held enemy_scenario 0 = 1
   \<and> map_option m_umNameToComp (heap enemy_scenario 0)
        = Some [(typeid_name_msvc TransformComponent, Some (Component 100 TransformComponent))]
   \<and> count_list (trace (deactivate_and_update 0 enemy_scenario))
        (OnRelease, Component 100 TransformComponent) = 0
   \<and> held twice_attached 0 = 0
   \<and> map_option m_umNameToComp (heap twice_attached 0)
        = Some [(''left'', Some (Component 100 RendererComponent)),
                (''right'', Some (Component 100 RendererComponent))]
   \<and> count_list (trace (deactivate_and_update 0 twice_attached))
        (OnRelease, Component 100 RendererComponent) = 2
   \<and> map_option m_umNameToComp (heap shared_component 0)
        = Some [(''body'', Some (Component 100 RendererComponent))]
   \<and> map_option m_umNameToComp (heap shared_component 1)
        = Some [(''body'', Some (Component 100 RendererComponent))]
   \<and> count_list (trace (deactivate_and_update 0 shared_component))
        (OnRelease, Component 100 RendererComponent) = 2"
  by code_simp

subsection \<open>Lookups\<close>

text \<open>
  A lookup is a function of the state: it changes nothing. The lookups of
  \<open>GameObject\<close> are empty for a key that is absent, and for a component that is not of
  the class asked for. \<open>GetObject\<close> is empty when the index has no entry for the C
  string at \<open>data()\<close> of its argument; for a string with no NUL in it that is the
  string.
\<close>

lemma GetComponent_absent:
  "map_of (m_umNameToComp this) key = None \<Longrightarrow> GetComponent key this = None"
  "map_of (m_umNameToComp this) (tn T) = None \<Longrightarrow> GetComponentT tn T this = None"
  "map_of (m_umNameToComp this) (tn T) = Some (Some c) \<Longrightarrow> \<not> is_base_of T (dynamic_type c) \<Longrightarrow>
     GetComponentT tn T this = None"
  by (simp_all add: GetComponent_def GetComponentT_def dynamic_pointer_cast_def)

lemma GetObject_absent:
  "c_str_at a_name = Inr key \<Longrightarrow> map_of (m_umNameToObjPtr w) key = None \<Longrightarrow>
     GetObject a_name w = Inr None"
  by (simp add: GetObject_def)

lemma GetObject_absent_plain:
  "NUL \<notin> set s \<Longrightarrow> map_of (m_umNameToObjPtr w) s = None \<Longrightarrow>
     GetObject (view_of s) w = Inr None"
  by (simp add: GetObject_def c_str_at_view_of c_str_plain)

text \<open>
  Claim C8 on the code. The manager of \<open>main\<close> holds its two objects, both named with
  the empty string, the index one entry for the empty string. For the view of length
  2 of the characters NUL, \<open>A\<close> no object is registered under the content of the view,
  and \<open>GetObject\<close> returns the second object: the key it looks up is the C string at
  \<open>data()\<close>, which is empty. For a view whose \<open>data()\<close> is null (a default-constructed
  view) and for a view of an array without a NUL, \<open>GetObject\<close> builds a string from a
  pointer that is no C string: it fails.
\<close>

theorem GetObject_reads_a_C_string:
  "m_umNameToObjPtr two_objects = [('''', 1)]
   \<and> object_names two_objects = ['''', '''']
   \<and> sv_content \<lparr>sv_memory = Some [NUL, CHR ''A'', NUL], sv_size = 2\<rparr> = [NUL, CHR ''A'']
   \<and> map_of (m_umNameToObjPtr two_objects)
        (sv_content \<lparr>sv_memory = Some [NUL, CHR ''A'', NUL], sv_size = 2\<rparr>) = None
   \<and> GetObject \<lparr>sv_memory = Some [NUL, CHR ''A'', NUL], sv_size = 2\<rparr> two_objects = Inr (Some 1)
   \<and> GetObject \<lparr>sv_memory = None, sv_size = 0\<rparr> two_objects = Inl Null_pointer
   \<and> GetObject \<lparr>sv_memory = Some ''Boss'', sv_size = 4\<rparr> two_objects = Inl Read_past_end"
  by code_simp

end
